theory Spec2Isabelle
  imports Main "HOL-Library.Word"
begin

unbundle bit_operations_syntax

section \<open>Machine types and fatal errors\<close>

text \<open>
  oatdump is built for a 32-bit target: the source casts pointers to \<open>uint32_t\<close>
  (\<open>reinterpret_cast<uint32_t>(code) & ~0x1\<close>), so pointers, \<open>size_t\<close> and \<open>uint32_t\<close>
  are all 32-bit words here. Word arithmetic wraps, comparisons are unsigned.
\<close>

type_synonym u32 = "32 word"
type_synonym u16 = "16 word"

text \<open>
  Modelled from the spec: the macro \<open>CHECK\<close> comes from \<open>logging.h\<close>, which is not among
  the sources. The specification describes the failed check of \<open>ComputeSize\<close> as fatal
  for the whole report (abort with a message and no size), and so is every failed
  \<open>CHECK\<close> here: \<open>CHECK_failed cond\<close>, with the text of the condition. An unsigned
  integer division by zero and a read past the end of a table are the other ways a dump
  can stop. Each is a value of \<open>abort\<close>, returned as \<open>Inl\<close>.
\<close>

datatype abort = CHECK_failed string | DivisionByZero | OutOfBoundsRead

text \<open>
  \<open>InstructionSet\<close> is declared in \<open>instruction_set.h\<close>, not among the sources; the dumper
  tells \<open>kThumb2\<close> from the others and nothing more.
\<close>

datatype InstructionSet = kNone | kArm | kThumb2 | kX86 | kMips

section \<open>The offset registry: \<open>std::set<uint32_t> offsets_\<close>\<close>

text \<open>
  A \<open>std::set\<close> is modelled by its in-order sequence: a strictly increasing list.
  \<open>set_insert\<close> is \<open>std::set::insert\<close> (no effect when the key is present),
  \<open>upper_bound\<close> is \<open>std::set::upper_bound\<close>: the first element greater than the key,
  \<open>None\<close> for the end iterator.
\<close>

fun set_insert :: "'a::linorder \<Rightarrow> 'a list \<Rightarrow> 'a list" where
  "set_insert x [] = [x]"
| "set_insert x (y # ys) =
     (if x < y then x # y # ys else if x = y then y # ys else y # set_insert x ys)"

fun upper_bound :: "'a::linorder list \<Rightarrow> 'a \<Rightarrow> 'a option" where
  "upper_bound [] k = None"
| "upper_bound (y # ys) k = (if k < y then Some y else upper_bound ys k)"

text \<open>
  The part of \<open>OatFile::OatMethod\<close> the dumper reads: the five region offsets registered
  by \<open>AddOffsets\<close>, the two spill masks, and the tables \<open>DumpOatMethod\<close> decodes
  (\<open>None\<close> is the NULL pointer).
\<close>

record OatMethod =
  code_offset :: u32
  mapping_table_offset :: u32
  vmap_table_offset :: u32
  native_gc_map_offset :: u32
  invoke_stub_offset :: u32
  core_spill_mask :: u32
  fp_spill_mask :: u32
  code :: u32
  mapping_table :: "u32 list option"
  vmap_table :: "u16 list option"

text \<open>
  A dex file as \<open>AddAllOffsets\<close> walks it: the address of its header, and for each class
  definition the methods of its class data, direct methods first (\<open>None\<close>: the class has
  no class data). An oat dex file whose dex file cannot be opened is \<open>None\<close>.
\<close>

record DexFile =
  header_address :: u32
  class_defs :: "OatMethod list option list"

record OatFile =
  Begin :: u32
  End :: u32
  instruction_set :: InstructionSet
  oat_dex_files :: "DexFile option list"

definition AddOffsets :: "InstructionSet \<Rightarrow> OatMethod \<Rightarrow> u32 list \<Rightarrow> u32 list" where
  "AddOffsets isa oat_method offs =
     (let code_off = (if isa = kThumb2 then code_offset oat_method AND NOT 1
                      else code_offset oat_method)
      in set_insert (invoke_stub_offset oat_method)
           (set_insert (native_gc_map_offset oat_method)
             (set_insert (vmap_table_offset oat_method)
               (set_insert (mapping_table_offset oat_method)
                 (set_insert code_off offs)))))"

definition AddClassOffsets :: "InstructionSet \<Rightarrow> OatMethod list option \<Rightarrow> u32 list \<Rightarrow> u32 list" where
  "AddClassOffsets isa class_data offs =
     (case class_data of None \<Rightarrow> offs | Some ms \<Rightarrow> fold (AddOffsets isa) ms offs)"

definition AddDexFileOffsets :: "InstructionSet \<Rightarrow> DexFile option \<Rightarrow> u32 list \<Rightarrow> u32 list" where
  "AddDexFileOffsets isa dex_file offs =
     (case dex_file of
        None \<Rightarrow> offs
      | Some df \<Rightarrow> fold (AddClassOffsets isa) (class_defs df) (set_insert (header_address df) offs))"

text \<open>The last insert is the sentinel: the offset of the end of the file.\<close>

definition AddAllOffsets :: "OatFile \<Rightarrow> u32 list" where
  "AddAllOffsets file =
     set_insert (End file - Begin file)
       (fold (AddDexFileOffsets (instruction_set file)) (oat_dex_files file) [])"

record OatDumper =
  oat_file :: OatFile
  offsets :: "u32 list"

definition new_OatDumper :: "OatFile \<Rightarrow> OatDumper" where
  "new_OatDumper file = \<lparr>oat_file = file, offsets = AddAllOffsets file\<rparr>"

text \<open>
  \<open>ComputeSize\<close> reads \<open>offsets_\<close> (the field \<open>offsets\<close>) and writes nothing, so the
  model returns the size only.
\<close>

definition ComputeSize :: "OatDumper \<Rightarrow> u32 \<Rightarrow> abort + u32" where
  "ComputeSize d oat_data =
     (if oat_data < Begin (oat_file d) \<or> oat_data > End (oat_file d) then Inr 0
      else let begin_offset = oat_data - Begin (oat_file d)
           in case upper_bound (offsets d) begin_offset of
                None \<Rightarrow> Inl (CHECK_failed ''it != offsets_.end()'')
              | Some end_offset \<Rightarrow> Inr (end_offset - begin_offset))"

section \<open>Deduplicated size accounting: \<open>ImageDumper::ComputeOatSize\<close>\<close>

text \<open>
  \<open>already_seen_\<close> is a \<open>std::set<const void*>\<close> used only through \<open>count\<close> and
  \<open>insert\<close>, so a set of addresses. \<open>ComputeOatSize\<close> first settles \<open>*first_occurrence\<close>
  and records the address, then asks the oat dumper for the size; when that lookup aborts,
  the process ends and there is no state to return.
\<close>

record ImageDumper =
  already_seen :: "u32 set"
  oat_dumper :: OatDumper

definition ComputeOatSize :: "ImageDumper \<Rightarrow> u32 \<Rightarrow> abort + (ImageDumper \<times> bool \<times> u32)" where
  "ComputeOatSize st oat_data =
     (let (first_occurrence, st') =
            (if oat_data \<notin> already_seen st
             then (True, st\<lparr>already_seen := insert oat_data (already_seen st)\<rparr>)
             else (False, st))
      in case ComputeSize (oat_dumper st') oat_data of
           Inl e \<Rightarrow> Inl e
         | Inr n \<Rightarrow> Inr (st', first_occurrence, n))"

text \<open>
  A report session asks for one address after the other (the heap walk's callback does so
  for every method it meets); the session threads the dumper's state through the calls
  and ends at the first abort.
\<close>

fun ComputeOatSize_session ::
  "ImageDumper \<Rightarrow> u32 list \<Rightarrow> abort + (ImageDumper \<times> (bool \<times> u32) list)" where
  "ComputeOatSize_session st [] = Inr (st, [])"
| "ComputeOatSize_session st (a # as) =
     (case ComputeOatSize st a of
        Inl e \<Rightarrow> Inl e
      | Inr (st', first_occurrence, n) \<Rightarrow>
          (case ComputeOatSize_session st' as of
             Inl e \<Rightarrow> Inl e
           | Inr (st'', rs) \<Rightarrow> Inr (st'', (first_occurrence, n) # rs)))"

section \<open>The vmap table dump: \<open>OatDumper::DumpVmap\<close>\<close>

text \<open>
  Modelled from the spec: \<open>VmapTable\<close> is declared in \<open>oat/runtime/context.h\<close>, which is not
  among the sources; following the spec's data model (an ordered sequence of virtual
  register identifiers) a table is the list of its entries, \<open>size()\<close> its length and
  \<open>operator[]\<close> the entry at a position.

  A dumped entry is the dex register and the machine register printed after it:
  \<open>/r<n>\<close> is \<open>R n\<close>, \<open>/fr<n>\<close> is \<open>FR n\<close>.
\<close>

datatype vmap_reg = R nat | FR nat

text \<open>
  The \<open>while (matches != (i + 1))\<close> loop; \<open>target\<close> is \<open>i + 1\<close>. Each round adds the low bit
  of the mask to \<open>matches\<close>, shifts the mask right and counts the shift; when the mask is
  used up the loop moves on to the floating-point mask, once, and a second exhaustion
  fails \<open>CHECK(!processing_fp)\<close>. The counters never exceed 66, so they are naturals.
\<close>

function vmap_scan :: "u32 \<Rightarrow> nat \<Rightarrow> nat \<Rightarrow> nat \<Rightarrow> u32 \<Rightarrow> bool \<Rightarrow> abort + nat" where
  "vmap_scan fp_mask target matches spill_shifts spill_mask processing_fp =
     (if matches = target then Inr spill_shifts
      else if spill_mask = 0 then
        (if processing_fp then Inl (CHECK_failed ''!processing_fp'')
         else vmap_scan fp_mask target (matches + unat (fp_mask AND 1)) (spill_shifts + 1)
                (drop_bit 1 fp_mask) True)
      else vmap_scan fp_mask target (matches + unat (spill_mask AND 1)) (spill_shifts + 1)
             (drop_bit 1 spill_mask) processing_fp)"
  by pat_completeness auto

lemma unat_drop_bit_less: "w \<noteq> 0 \<Longrightarrow> unat (drop_bit (Suc 0) (w :: u32)) < unat w"
  by (simp add: drop_bit_eq_div unat_div unat_gt_0)

termination vmap_scan
  by (relation "measure (\<lambda>(fp_mask, target, matches, spill_shifts, spill_mask, processing_fp).
          (if processing_fp then 0 else 2 ^ 32 + 1) + unat spill_mask)")
     (auto simp: unat_drop_bit_less intro: less_le_trans [OF unsigned_less])

declare vmap_scan.simps [simp del]

definition vmap_reg_of :: "nat \<Rightarrow> vmap_reg" where
  "vmap_reg_of arm_reg = (if arm_reg < 16 then R arm_reg else FR (arm_reg - 16))"

definition DumpVmap_entry :: "u32 \<Rightarrow> u32 \<Rightarrow> nat \<Rightarrow> u16 \<Rightarrow> abort + (u16 \<times> vmap_reg)" where
  "DumpVmap_entry core_mask fp_mask i dex_reg =
     (case vmap_scan fp_mask (i + 1) 0 0 core_mask False of
        Inl e \<Rightarrow> Inl e
      | Inr spill_shifts \<Rightarrow> (let arm_reg = spill_shifts - 1 in Inr (dex_reg, vmap_reg_of arm_reg)))"

fun DumpVmap_loop :: "u32 \<Rightarrow> u32 \<Rightarrow> nat \<Rightarrow> u16 list \<Rightarrow> abort + (u16 \<times> vmap_reg) list" where
  "DumpVmap_loop core_mask fp_mask i [] = Inr []"
| "DumpVmap_loop core_mask fp_mask i (dex_reg # rest) =
     (case DumpVmap_entry core_mask fp_mask i dex_reg of
        Inl e \<Rightarrow> Inl e
      | Inr x \<Rightarrow>
          (case DumpVmap_loop core_mask fp_mask (i + 1) rest of
             Inl e \<Rightarrow> Inl e
           | Inr xs \<Rightarrow> Inr (x # xs)))"

definition DumpVmap :: "u16 list option \<Rightarrow> u32 \<Rightarrow> u32 \<Rightarrow> abort + (u16 \<times> vmap_reg) list" where
  "DumpVmap raw_table core_mask fp_mask =
     (case raw_table of None \<Rightarrow> Inr [] | Some t \<Rightarrow> DumpVmap_loop core_mask fp_mask 0 t)"

subsection \<open>The spill masks of the same method: \<open>OatDumper::DumpSpillMask\<close>\<close>

text \<open>
  \<open>DumpOatMethod\<close> prints the two spill masks of a method with \<open>DumpSpillMask\<close> right before
  it dumps the vmap table. The function names the register of every set bit of the mask
  by the number of the bit (\<open>r<i>\<close>, or \<open>fr<i>\<close> for the floating-point mask), clears the bit
  and stops when no bit is left; nothing is printed for an empty mask. The dump is the
  list of the registers named (\<open>1 << i\<close> is taken as the 32-bit word with bit \<open>i\<close> set).
\<close>

function DumpSpillMask_loop :: "u32 \<Rightarrow> bool \<Rightarrow> nat \<Rightarrow> vmap_reg list" where
  "DumpSpillMask_loop spill_mask is_float i =
     (if i < 32 then
        (if spill_mask AND push_bit i 1 \<noteq> 0 then
           (let reg = (if is_float then FR i else R i);
                spill_mask = spill_mask XOR push_bit i 1
            in if spill_mask \<noteq> 0 then reg # DumpSpillMask_loop spill_mask is_float (i + 1)
               else [reg])
         else DumpSpillMask_loop spill_mask is_float (i + 1))
      else [])"
  by pat_completeness auto
termination
  by (relation "measure (\<lambda>(spill_mask, is_float, i). 32 - i)") auto

declare DumpSpillMask_loop.simps [simp del]

definition DumpSpillMask :: "u32 \<Rightarrow> bool \<Rightarrow> vmap_reg list" where
  "DumpSpillMask spill_mask is_float =
     (if spill_mask = 0 then [] else DumpSpillMask_loop spill_mask is_float 0)"

subsection \<open>What the scan computes, and what the specification says it computes\<close>

text \<open>
  \<open>mask_bits w\<close> lists the bits of \<open>w\<close> from bit 0 up to its highest set bit (nothing for 0);
  \<open>nth_set_bit bs n\<close> is the position of the \<open>(n+1)\<close>-th \<open>True\<close> in \<open>bs\<close>.
\<close>

function mask_bits :: "u32 \<Rightarrow> bool list" where
  "mask_bits w = (if w = 0 then [] else bit w 0 # mask_bits (drop_bit 1 w))"
  by pat_completeness auto
termination
  by (relation "measure unat") (auto simp: unat_drop_bit_less)

declare mask_bits.simps [simp del]

fun nth_set_bit :: "bool list \<Rightarrow> nat \<Rightarrow> nat option" where
  "nth_set_bit [] n = None"
| "nth_set_bit (b # bs) n =
     (if b then (case n of 0 \<Rightarrow> Some 0 | Suc m \<Rightarrow> map_option Suc (nth_set_bit bs m))
      else map_option Suc (nth_set_bit bs n))"

text \<open>
  The decoder as the specification words it: the stream is the 32 bits of the GP mask
  followed by the 32 bits of the FP mask, the slot of entry \<open>i\<close> is the position of the
  \<open>(i+1)\<close>-th set bit, a GP register when below 32 and else the FP register \<open>slot - 32\<close>;
  \<open>None\<close> stands for \<open>MalformedRegisterTable\<close>.
\<close>

definition spec_bitstream :: "u32 \<Rightarrow> u32 \<Rightarrow> bool list" where
  "spec_bitstream gp_mask fp_mask = map (bit gp_mask) [0..<32] @ map (bit fp_mask) [0..<32]"

definition spec_decodeVirtualRegisterTable ::
  "u16 list \<Rightarrow> u32 \<Rightarrow> u32 \<Rightarrow> (u16 \<times> vmap_reg) list option" where
  "spec_decodeVirtualRegisterTable table gp_mask fp_mask =
     (if \<exists>i \<in> set [0..<length table]. nth_set_bit (spec_bitstream gp_mask fp_mask) i = None
      then None
      else Some (map (\<lambda>i. (table ! i,
                    case nth_set_bit (spec_bitstream gp_mask fp_mask) i of
                      Some slot \<Rightarrow> if slot < 32 then R slot else FR (slot - 32)
                    | None \<Rightarrow> R 0))
                 [0..<length table]))"

section \<open>The mapping table dump: \<open>OatDumper::DumpMappingTable\<close>\<close>

text \<open>
  The raw table is the list of the 32-bit words at the table's address: \<open>length\<close>, then
  \<open>pc_to_dex_entries\<close>, then the entries. What is printed per round: the pair
  \<open>native_pc -> dex_pc\<close> (\<open>MapEntry\<close>, with \<open>native_pc = code + raw_table[i]\<close>), then
  \<open>"}\n\t\t{"\<close> closing the pc-to-dex section (\<open>SectionBreak\<close>) or \<open>", "\<close> (\<open>Comma\<close>).
  A read past the words of the table is \<open>OutOfBoundsRead\<close>. The index is a natural: a
  table in a 32-bit address space has fewer than \<open>2^30\<close> words, so \<open>i + 2\<close> does not wrap
  before such a read.
\<close>

datatype mapping_out = MapEntry u32 u32 | SectionBreak | Comma

function DumpMappingTable_loop ::
  "u32 \<Rightarrow> u32 list \<Rightarrow> nat \<Rightarrow> nat \<Rightarrow> nat \<Rightarrow> abort + mapping_out list" where
  "DumpMappingTable_loop code_ptr raw_table table_length pc_to_dex_entries i =
     (if i < table_length then
        (if i + 1 < length raw_table then
           (case DumpMappingTable_loop code_ptr raw_table table_length pc_to_dex_entries (i + 2) of
              Inl e \<Rightarrow> Inl e
            | Inr rest \<Rightarrow>
                Inr (MapEntry (code_ptr + raw_table ! i) (raw_table ! (i + 1))
                     # (if i + 2 = pc_to_dex_entries then [SectionBreak]
                        else if i + 2 < table_length then [Comma] else [])
                     @ rest))
         else Inl OutOfBoundsRead)
      else Inr [])"
  by pat_completeness auto
termination
  by (relation "measure (\<lambda>(code_ptr, raw_table, table_length, pc_to_dex_entries, i).
          table_length - i)") auto

declare DumpMappingTable_loop.simps [simp del]

text \<open>Nothing is printed when the table or the code is NULL.\<close>

definition DumpMappingTable :: "OatMethod \<Rightarrow> abort + mapping_out list" where
  "DumpMappingTable oat_method =
     (case mapping_table oat_method of
        None \<Rightarrow> Inr []
      | Some raw_table \<Rightarrow>
          if code oat_method = 0 then Inr []
          else (case raw_table of
                  table_length # pc_to_dex_entries # entries \<Rightarrow>
                    DumpMappingTable_loop (code oat_method) entries
                      (unat table_length) (unat pc_to_dex_entries) 0
                | _ \<Rightarrow> Inl OutOfBoundsRead))"

text \<open>
  The printed text read back: the pairs of each brace group, the groups in order.
\<close>

fun sections :: "mapping_out list \<Rightarrow> (u32 \<times> u32) list list" where
  "sections [] = [[]]"
| "sections (MapEntry native_pc dex_pc # ts) =
     (case sections ts of
        [] \<Rightarrow> [[(native_pc, dex_pc)]]
      | s # ss \<Rightarrow> ((native_pc, dex_pc) # s) # ss)"
| "sections (SectionBreak # ts) = [] # sections ts"
| "sections (Comma # ts) = sections ts"

section \<open>The report: \<open>OatDumper::Dump\<close>\<close>








section \<open>Outliers: \<open>ImageDumper::Stats::DumpOutliers\<close>\<close>

text \<open>
  The two sweeps of \<open>DumpOutliers\<close> are the same loops over different samples: the sizes
  (\<open>size_t\<close>, thresholds from 100) and the expansions (\<open>double\<close>, thresholds from 10). The
  model has the loops once, over any type of sample: \<open>exceeds i cur\<close> is the test that
  the sample \<open>cur\<close> lies more than \<open>i\<close> standard deviations above the mean and \<open>zero\<close> is
  the value that replaces a dumped sample.

  \<open>outlier_scan\<close> is the inner loop over \<open>j\<close>, run on the samples from position \<open>j\<close> on. It
  returns the samples as the loop leaves them, \<open>dumped_values\<close>, \<open>skipped_values\<close>, the
  samples it dumped (position and value, one printed line each, under one headline per
  pass), and whether it left through \<open>i = 2; break\<close>.
\<close>

fun outlier_scan ::
  "(nat \<Rightarrow> 'a \<Rightarrow> bool) \<Rightarrow> 'a \<Rightarrow> nat \<Rightarrow> nat \<Rightarrow> 'a list \<Rightarrow> nat \<Rightarrow> nat
     \<Rightarrow> 'a list \<times> nat \<times> nat \<times> (nat \<times> 'a) list \<times> bool" where
  "outlier_scan exceeds zero i j [] dumped_values skipped_values =
     ([], dumped_values, skipped_values, [], False)"
| "outlier_scan exceeds zero i j (cur # rest) dumped_values skipped_values =
     (if exceeds i cur then
        (if dumped_values > 20 then
           (if i = 1 then
              (case outlier_scan exceeds zero i (j + 1) rest dumped_values (skipped_values + 1) of
                 (rest', d, s, out, jumped) \<Rightarrow> (cur # rest', d, s, out, jumped))
            else (cur # rest, dumped_values, skipped_values, [], True))
         else
           (case outlier_scan exceeds zero i (j + 1) rest (dumped_values + 1) skipped_values of
              (rest', d, s, out, jumped) \<Rightarrow> (zero # rest', d, s, (j, cur) # out, jumped)))
      else
        (case outlier_scan exceeds zero i (j + 1) rest dumped_values skipped_values of
           (rest', d, s, out, jumped) \<Rightarrow> (cur # rest', d, s, out, jumped)))"

lemma outlier_scan_jumped:
  "outlier_scan exceeds zero i j samples d s = (samples', d', s', out, True) \<Longrightarrow> i \<noteq> 1"
  by (induction samples arbitrary: j d s samples' d' s' out)
     (auto split: if_splits prod.splits)

text \<open>
  \<open>outlier_sweep\<close> is the outer loop \<open>for (i = start; i > 0; i--)\<close>: after a pass left
  through \<open>i = 2; break\<close> the decrement of the loop makes the next threshold 1. It returns
  the final samples and counters and, for every pass it ran, the threshold and the
  samples dumped in that pass.
\<close>

function outlier_sweep ::
  "(nat \<Rightarrow> 'a \<Rightarrow> bool) \<Rightarrow> 'a \<Rightarrow> nat \<Rightarrow> 'a list \<Rightarrow> nat \<Rightarrow> nat
     \<Rightarrow> 'a list \<times> nat \<times> nat \<times> (nat \<times> (nat \<times> 'a) list) list" where
  "outlier_sweep exceeds zero i samples dumped_values skipped_values =
     (if i > 0 then
        (case outlier_scan exceeds zero i 0 samples dumped_values skipped_values of
           (samples', d, s, out, jumped) \<Rightarrow>
             (case outlier_sweep exceeds zero ((if jumped then 2 else i) - 1) samples' d s of
                (samples'', d', s', passes) \<Rightarrow> (samples'', d', s', (i, out) # passes)))
      else (samples, dumped_values, skipped_values, []))"
  by pat_completeness auto
termination outlier_sweep
proof (relation "measure (\<lambda>(exceeds, zero, i, samples, d, s). i)", goal_cases)
  case 1
  show ?case by simp
next
  case (2 exceeds zero i samples d s x y xa ya xb yb xc yc)
  from 2(2-5) have "outlier_scan exceeds zero i 0 samples d s = (x, xa, xb, xc, yc)" by simp
  then have "yc \<Longrightarrow> i \<noteq> 1" by (auto dest: outlier_scan_jumped)
  with 2(1) show ?case by auto
qed

declare outlier_sweep.simps [simp del]

text \<open>
  The test of the size sweep, in \<open>size_t\<close> arithmetic:
  \<open>cur_size > size_mean\<close> and \<open>(cur_size - size_mean)^2 > i * i * size_variance\<close>.
\<close>

definition size_exceeds :: "u32 \<Rightarrow> u32 \<Rightarrow> nat \<Rightarrow> u32 \<Rightarrow> bool" where
  "size_exceeds size_mean size_variance i cur_size =
     (let cur_size_variance = of_nat i * of_nat i * size_variance
      in cur_size > size_mean
         \<and> (let cur_var = cur_size - size_mean in cur_var * cur_var > cur_size_variance))"

text \<open>
  The size half of \<open>DumpOutliers\<close>: the sums, the mean, the variance, the sweep. The two
  divisions are unsigned integer divisions by \<open>n\<close> and by \<open>n - 1\<close>; the source does not
  test the divisors, and a zero divisor stops the program (\<open>DivisionByZero\<close>).
\<close>

definition DumpOutliers_size ::
  "u32 list \<Rightarrow> abort + (u32 list \<times> nat \<times> nat \<times> (nat \<times> (nat \<times> u32) list) list)" where
  "DumpOutliers_size method_outlier_size =
     (let n = (of_nat (length method_outlier_size) :: u32);
          sum_of_sizes = fold (\<lambda>cur_size acc. acc + cur_size) method_outlier_size 0;
          sum_of_sizes_squared = fold (\<lambda>cur_size acc. acc + cur_size * cur_size) method_outlier_size 0
      in if n = 0 then Inl DivisionByZero
         else let size_mean = sum_of_sizes div n
              in if n - 1 = 0 then Inl DivisionByZero
                 else let size_variance = (sum_of_sizes_squared - sum_of_sizes * size_mean) div (n - 1)
                      in Inr (outlier_sweep (size_exceeds size_mean size_variance) 0 100
                                method_outlier_size 0 0))"

text \<open>
  The expansion half runs the same sweep from threshold 10 over \<open>method_outlier_expansion\<close>.
  Floating-point arithmetic is not modelled: the type of the expansions, the value \<open>0.0\<close>
  that replaces a dumped expansion and the test
  \<open>cur_expansion > expansion_mean && cur_var > cur_expansion_variance\<close> are parameters.
\<close>

definition DumpOutliers_expansion ::
  "(nat \<Rightarrow> 'd \<Rightarrow> bool) \<Rightarrow> 'd \<Rightarrow> 'd list
     \<Rightarrow> 'd list \<times> nat \<times> nat \<times> (nat \<times> (nat \<times> 'd) list) list" where
  "DumpOutliers_expansion expansion_exceeds zero method_outlier_expansion =
     outlier_sweep expansion_exceeds zero 10 method_outlier_expansion 0 0"

section \<open>Auxiliary notions for the statements\<close>

text \<open>The outcome of a vmap scan that still needs \<open>n + 1\<close> set bits from the bits \<open>bs\<close>.\<close>

definition scan_result :: "bool list \<Rightarrow> nat \<Rightarrow> nat \<Rightarrow> abort + nat" where
  "scan_result bs n spill_shifts =
     (case nth_set_bit bs n of
        None \<Rightarrow> Inl (CHECK_failed ''!processing_fp'')
      | Some k \<Rightarrow> Inr (spill_shifts + k + 1))"

text \<open>
  The pairs that the words \<open>a, a+1, ..., b-1\<close> of a mapping table hold (for even \<open>a\<close> and
  \<open>b\<close>), with the native PC made absolute as the dump prints it.
\<close>

definition entries_between :: "u32 \<Rightarrow> u32 list \<Rightarrow> nat \<Rightarrow> nat \<Rightarrow> (u32 \<times> u32) list" where
  "entries_between code_ptr raw_table a b =
     map (\<lambda>k. (code_ptr + raw_table ! (2 * k), raw_table ! (2 * k + 1))) [a div 2..<b div 2]"

text \<open>What a run of \<open>DumpOutliers_size\<close> reported, skipped and evaluated.\<close>

definition reported_count ::
  "abort + ('a list \<times> nat \<times> nat \<times> (nat \<times> (nat \<times> 'a) list) list) \<Rightarrow> nat option" where
  "reported_count r =
     (case r of Inl e \<Rightarrow> None
      | Inr (samples, d, s, passes) \<Rightarrow> Some (length (concat (map snd passes))))"

definition skipped_count ::
  "abort + ('a list \<times> nat \<times> nat \<times> (nat \<times> (nat \<times> 'a) list) list) \<Rightarrow> nat option" where
  "skipped_count r = (case r of Inl e \<Rightarrow> None | Inr (samples, d, s, passes) \<Rightarrow> Some s)"

definition thresholds ::
  "abort + ('a list \<times> nat \<times> nat \<times> (nat \<times> (nat \<times> 'a) list) list) \<Rightarrow> nat list" where
  "thresholds r = (case r of Inl e \<Rightarrow> [] | Inr (samples, d, s, passes) \<Rightarrow> map fst passes)"

section \<open>Example inputs\<close>

text \<open>
  A Thumb2 oat file mapped at \<open>0x1000..0x1100\<close> with one unopenable dex file and one dex
  file of two classes, the second with a single method.
\<close>

definition example_method :: OatMethod where
  "example_method =
     \<lparr>code_offset = 0x41, mapping_table_offset = 0x60, vmap_table_offset = 0x70,
      native_gc_map_offset = 0x80, invoke_stub_offset = 0x90,
      core_spill_mask = 3, fp_spill_mask = 0, code = 0x1040,
      mapping_table = Some [8, 4, 0x10, 3, 0x20, 5, 3, 0x10, 5, 0x20],
      vmap_table = Some [5, 7]\<rparr>"

definition example_oat_file :: OatFile where
  "example_oat_file =
     \<lparr>Begin = 0x1000, End = 0x1100, instruction_set = kThumb2,
      oat_dex_files =
        [None, Some \<lparr>header_address = 0x20, class_defs = [None, Some [example_method]]\<rparr>]\<rparr>"



text \<open>
  The method of the specification's example of a mapping table: the counts 4 and 2 in
  front of the four pairs.
\<close>

definition spec_blob_method :: OatMethod where
  "spec_blob_method =
     example_method\<lparr>mapping_table := Some [4, 2, 0x10, 3, 0x20, 5, 3, 0x10, 5, 0x20]\<rparr>"

text \<open>
  An oat file mapped at \<open>0x1000..0x1100\<close> that holds two dex files and no class; the dex
  file headers lie in the mapping, at the addresses \<open>0x1020\<close> and \<open>0x1080\<close>.
\<close>

definition two_dex_oat_file :: OatFile where
  "two_dex_oat_file =
     \<lparr>Begin = 0x1000, End = 0x1100, instruction_set = kThumb2,
      oat_dex_files =
        [Some \<lparr>header_address = 0x1020, class_defs = []\<rparr>,
         Some \<lparr>header_address = 0x1080, class_defs = []\<rparr>]\<rparr>"

section \<open>The registry is a strictly increasing sequence\<close>

lemma set_set_insert: "set (set_insert x xs) = insert x (set xs)"
  by (induction xs) auto

lemma sorted_set_insert: "sorted_wrt (<) xs \<Longrightarrow> sorted_wrt (<) (set_insert x xs)"
  by (induction xs) (auto simp: set_set_insert)

lemma upper_bound_None:
  "upper_bound xs k = None \<longleftrightarrow> (\<forall>y \<in> set xs. \<not> k < y)"
  by (induction xs) auto

lemma upper_bound_Some:
  "sorted_wrt (<) xs \<Longrightarrow> upper_bound xs k = Some y \<longleftrightarrow> (y \<in> set xs \<and> k < y \<and> (\<forall>z \<in> set xs. k < z \<longrightarrow> y \<le> z))"
proof (induction xs)
  case Nil
  then show ?case by simp
next
  case (Cons x xs)
  show ?case
  proof (cases "k < x")
    case True
    with Cons.prems show ?thesis by (auto simp: less_imp_le)
  next
    case False
    with Cons show ?thesis by auto
  qed
qed

lemma fold_invariant:
  assumes "P s" and "\<And>x s. P s \<Longrightarrow> P (f x s)"
  shows "P (fold f xs s)"
  using assms(1) by (induction xs arbitrary: s) (simp_all add: assms(2))

lemma sorted_AddOffsets: "sorted_wrt (<) offs \<Longrightarrow> sorted_wrt (<) (AddOffsets isa m offs)"
  by (simp add: AddOffsets_def Let_def sorted_set_insert)

lemma sorted_AddClassOffsets:
  "sorted_wrt (<) offs \<Longrightarrow> sorted_wrt (<) (AddClassOffsets isa c offs)"
  unfolding AddClassOffsets_def
  by (cases c) (simp_all add: fold_invariant [where P = "sorted_wrt (<)"] sorted_AddOffsets)

lemma sorted_AddDexFileOffsets:
  "sorted_wrt (<) offs \<Longrightarrow> sorted_wrt (<) (AddDexFileOffsets isa df offs)"
  unfolding AddDexFileOffsets_def
  by (cases df)
     (simp_all add: fold_invariant [where P = "sorted_wrt (<)"] sorted_AddClassOffsets
        sorted_set_insert)

lemma sorted_AddAllOffsets: "sorted_wrt (<) (AddAllOffsets file)"
  unfolding AddAllOffsets_def
  by (intro sorted_set_insert fold_invariant [where P = "sorted_wrt (<)"])
     (simp_all add: sorted_AddDexFileOffsets)

lemma sentinel_AddAllOffsets: "End file - Begin file \<in> set (AddAllOffsets file)"
  by (simp add: AddAllOffsets_def set_set_insert)

lemma upper_bound_Min:
  assumes "sorted_wrt (<) xs" and "\<exists>y \<in> set xs. k < y"
  shows "upper_bound xs k = Some (Min {y \<in> set xs. k < y})"
proof -
  let ?S = "{y \<in> set xs. k < y}"
  have fin: "finite ?S" and ne: "?S \<noteq> {}" using assms(2) by auto
  have "Min ?S \<in> ?S" using fin ne by (rule Min_in)
  moreover have "\<forall>z \<in> set xs. k < z \<longrightarrow> Min ?S \<le> z" using fin by simp
  ultimately show ?thesis using upper_bound_Some [OF assms(1)] by blast
qed

lemma upper_bound_adjacent:
  assumes "sorted_wrt (<) xs" "o1 \<in> set xs" "o2 \<in> set xs" "o1 < o2"
    and "\<forall>x \<in> set xs. \<not> (o1 < x \<and> x < o2)"
  shows "upper_bound xs o1 = Some o2"
  using assms upper_bound_Some [OF assms(1), of o1 o2] by (auto simp: not_less)

lemma in_range_offset:
  fixes b e x :: u32
  assumes "b \<le> e" "x \<le> e - b"
  shows "\<not> b + x < b" "\<not> b + x > e" "b + x - b = x"
  using assms by unat_arith+

lemma example_offsets:
  "offsets (new_OatDumper example_oat_file) = [0x20, 0x40, 0x60, 0x70, 0x80, 0x90, 0x100]"
  by (simp add: new_OatDumper_def example_oat_file_def example_method_def AddAllOffsets_def
      AddDexFileOffsets_def AddClassOffsets_def AddOffsets_def)

lemma example_bounds:
  "Begin (oat_file (new_OatDumper example_oat_file)) = 0x1000"
  "End (oat_file (new_OatDumper example_oat_file)) = 0x1100"
  "Begin example_oat_file = 0x1000" "End example_oat_file = 0x1100"
  by (simp_all add: new_OatDumper_def example_oat_file_def)

section \<open>Boundary inference\<close>

text \<open>
  C1, as claimed: for every pair of registered offsets \<open>o1 < o2\<close> that are adjacent in the
  registry, the size looked up for \<open>o1\<close> is \<open>o2 - o1\<close>. A lookup takes an address, and
  \<open>ComputeSize\<close> answers 0 for an address outside \<open>[Begin, End]\<close> before it consults the
  registry. In the file with two dex files the registry holds, after the end offset
  \<open>0x100\<close>, the two entries \<open>0x1020\<close> and \<open>0x1080\<close> made from the dex file headers; they are
  adjacent, and the lookup for the first one returns 0, not \<open>0x60\<close>.
\<close>

theorem ComputeSize_adjacent_beyond_End_counterexample:
  "offsets (new_OatDumper two_dex_oat_file) = [0x100, 0x1020, 0x1080]
   \<and> ComputeSize (new_OatDumper two_dex_oat_file) (Begin two_dex_oat_file + 0x1020) = Inr 0
   \<and> ComputeSize (new_OatDumper two_dex_oat_file) (Begin two_dex_oat_file + 0x1020)
       \<noteq> Inr (0x1080 - 0x1020)"
  by (simp add: new_OatDumper_def two_dex_oat_file_def AddAllOffsets_def AddDexFileOffsets_def
      ComputeSize_def)

text \<open>
  C1, amended: for the registry that the dumper's constructor fills, a lookup at an
  address of the file returns the least registered offset greater than the address's
  offset, minus that offset, whenever a greater offset is registered. In particular, for
  every pair of registered offsets \<open>o1 < o2\<close> with no registered offset between them, the
  size looked up for \<open>o1\<close> is \<open>o2 - o1\<close> when the address of \<open>o1\<close>, \<open>Begin + o1\<close>, lies in
  \<open>[Begin, End]\<close>, and 0 when it does not.
\<close>

theorem ComputeSize_distance_to_next_offset:
  "(Begin file \<le> p \<and> p \<le> End file
      \<and> (\<exists>x \<in> set (offsets (new_OatDumper file)). p - Begin file < x)
      \<longrightarrow> ComputeSize (new_OatDumper file) p =
            Inr (Min {x \<in> set (offsets (new_OatDumper file)). p - Begin file < x}
                 - (p - Begin file)))
   \<and> (o1 \<in> set (offsets (new_OatDumper file)) \<and> o2 \<in> set (offsets (new_OatDumper file))
        \<and> o1 < o2 \<and> (\<forall>x \<in> set (offsets (new_OatDumper file)). \<not> (o1 < x \<and> x < o2))
      \<longrightarrow> ComputeSize (new_OatDumper file) (Begin file + o1) =
            (if Begin file \<le> Begin file + o1 \<and> Begin file + o1 \<le> End file
             then Inr (o2 - o1) else Inr 0))"
proof (intro conjI impI)
  let ?d = "new_OatDumper file"
  have srt: "sorted_wrt (<) (offsets ?d)"
    by (simp add: new_OatDumper_def sorted_AddAllOffsets)
  { assume a: "Begin file \<le> p \<and> p \<le> End file
        \<and> (\<exists>x \<in> set (offsets ?d). p - Begin file < x)"
    then have "upper_bound (offsets ?d) (p - Begin file)
        = Some (Min {x \<in> set (offsets ?d). p - Begin file < x})"
      using upper_bound_Min [OF srt] by blast
    moreover from a have "\<not> p < Begin file" "\<not> End file < p"
      by (simp_all add: not_less)
    ultimately show "ComputeSize ?d p
        = Inr (Min {x \<in> set (offsets ?d). p - Begin file < x} - (p - Begin file))"
      by (simp add: ComputeSize_def new_OatDumper_def Let_def) }
  { assume a: "o1 \<in> set (offsets ?d) \<and> o2 \<in> set (offsets ?d) \<and> o1 < o2
        \<and> (\<forall>x \<in> set (offsets ?d). \<not> (o1 < x \<and> x < o2))"
    then have ub: "upper_bound (offsets ?d) o1 = Some o2"
      using upper_bound_adjacent [OF srt] by blast
    have off: "Begin file + o1 - Begin file = o1" by simp
    show "ComputeSize ?d (Begin file + o1) =
        (if Begin file \<le> Begin file + o1 \<and> Begin file + o1 \<le> End file
         then Inr (o2 - o1) else Inr 0)"
      using ub by (auto simp: ComputeSize_def new_OatDumper_def Let_def off not_less) }
qed

theorem ComputeSize_distance_to_next_offset_witness:
  "offsets (new_OatDumper example_oat_file) = [0x20, 0x40, 0x60, 0x70, 0x80, 0x90, 0x100]
   \<and> ComputeSize (new_OatDumper example_oat_file) 0x1044 = Inr 0x1C
   \<and> ComputeSize (new_OatDumper example_oat_file) (0x1000 + 0x40) = Inr (0x60 - 0x40)
   \<and> ComputeSize (new_OatDumper two_dex_oat_file) (0x1000 + 0x1020) = Inr 0"
proof -
  let ?d = "new_OatDumper example_oat_file"
  let ?d2 = "new_OatDumper two_dex_oat_file"
  note main = ComputeSize_distance_to_next_offset [of example_oat_file "0x1044" "0x40" "0x60"]
  have h1: "Begin example_oat_file \<le> 0x1044 \<and> 0x1044 \<le> End example_oat_file
      \<and> (\<exists>x \<in> set (offsets ?d). 0x1044 - Begin example_oat_file < x)"
    by (simp add: example_offsets example_bounds)
  have m: "Min {x \<in> set (offsets ?d). 0x1044 - Begin example_oat_file < x} = 0x60"
    by (rule Min_eqI) (auto simp: example_offsets example_bounds)
  have h2: "0x40 \<in> set (offsets ?d) \<and> 0x60 \<in> set (offsets ?d) \<and> (0x40 :: u32) < 0x60
      \<and> (\<forall>x \<in> set (offsets ?d). \<not> (0x40 < x \<and> x < 0x60))"
    by (simp add: example_offsets example_bounds)
  have offs2: "offsets ?d2 = [0x100, 0x1020, 0x1080]"
    by (simp add: new_OatDumper_def two_dex_oat_file_def AddAllOffsets_def
        AddDexFileOffsets_def)
  have b2: "Begin two_dex_oat_file = 0x1000" "End two_dex_oat_file = 0x1100"
    by (simp_all add: two_dex_oat_file_def)
  have h3: "0x1020 \<in> set (offsets ?d2) \<and> 0x1080 \<in> set (offsets ?d2) \<and> (0x1020 :: u32) < 0x1080
      \<and> (\<forall>x \<in> set (offsets ?d2). \<not> (0x1020 < x \<and> x < 0x1080))"
    by (simp add: offs2)
  from main [THEN conjunct1, rule_format, OF h1] m
  have "ComputeSize ?d 0x1044 = Inr 0x1C" by (simp add: example_bounds)
  moreover from main [THEN conjunct2, rule_format, OF h2]
  have "ComputeSize ?d (0x1000 + 0x40) = Inr (0x60 - 0x40)" by (simp add: example_bounds)
  moreover from ComputeSize_distance_to_next_offset
      [of two_dex_oat_file _ "0x1020" "0x1080", THEN conjunct2, rule_format, OF h3]
  have "ComputeSize ?d2 (0x1000 + 0x1020) = Inr 0" by (simp add: b2)
  ultimately show ?thesis using example_offsets by simp
qed

text \<open>
  C2, as claimed: once the end offset is registered, no lookup inside \<open>[begin, end]\<close>
  fails. The range test of \<open>ComputeSize\<close> lets the address \<open>End\<close> itself through, and the
  sentinel is not greater than its own offset: in the example file the lookup at \<open>End\<close>
  fails the \<open>CHECK\<close>.
\<close>

theorem ComputeSize_at_End_counterexample:
  "End example_oat_file - Begin example_oat_file \<in> set (offsets (new_OatDumper example_oat_file))
   \<and> Begin example_oat_file \<le> End example_oat_file
   \<and> ComputeSize (new_OatDumper example_oat_file) (End example_oat_file)
       = Inl (CHECK_failed ''it != offsets_.end()'')"
  by (simp add: example_offsets example_bounds ComputeSize_def)

text \<open>
  C2, amended: with the end offset registered by the constructor, every lookup at an
  address in \<open>[Begin, End)\<close> returns a size, and that size is positive; a lookup at an
  address in \<open>[Begin, End]\<close> for which no greater offset is registered fails the \<open>CHECK\<close>
  (a fatal abort) and returns no size; and no lookup at an address in \<open>[Begin, End]\<close>
  returns the size 0.
\<close>

theorem ComputeSize_sentinel:
  "(Begin file \<le> p \<and> p < End file
      \<longrightarrow> (\<exists>n. ComputeSize (new_OatDumper file) p = Inr n \<and> 0 < n))
   \<and> (Begin file \<le> p \<and> p \<le> End file
        \<and> \<not> (\<exists>x \<in> set (offsets (new_OatDumper file)). p - Begin file < x)
      \<longrightarrow> ComputeSize (new_OatDumper file) p = Inl (CHECK_failed ''it != offsets_.end()''))
   \<and> (Begin file \<le> p \<and> p \<le> End file
      \<longrightarrow> ComputeSize (new_OatDumper file) p \<noteq> Inr 0)"
proof (intro conjI impI)
  let ?d = "new_OatDumper file"
  have srt: "sorted_wrt (<) (offsets ?d)"
    by (simp add: new_OatDumper_def sorted_AddAllOffsets)
  { assume a: "Begin file \<le> p \<and> p < End file"
    then have lt: "p - Begin file < End file - Begin file" by unat_arith
    have "End file - Begin file \<in> set (offsets ?d)"
      by (simp add: new_OatDumper_def sentinel_AddAllOffsets)
    with lt have ex: "\<exists>x \<in> set (offsets ?d). p - Begin file < x" by blast
    then obtain y where y: "upper_bound (offsets ?d) (p - Begin file) = Some y"
      using upper_bound_Min [OF srt] by blast
    then have "p - Begin file < y" using upper_bound_Some [OF srt] by blast
    then have "0 < y - (p - Begin file)" by unat_arith
    moreover from a have "\<not> p < Begin file" "\<not> End file < p"
      by (simp_all add: not_less less_imp_le)
    ultimately show "\<exists>n. ComputeSize ?d p = Inr n \<and> 0 < n"
      using y by (simp add: ComputeSize_def new_OatDumper_def Let_def) }
  { assume a: "Begin file \<le> p \<and> p \<le> End file
        \<and> \<not> (\<exists>x \<in> set (offsets ?d). p - Begin file < x)"
    then have "upper_bound (offsets ?d) (p - Begin file) = None"
      by (simp add: upper_bound_None)
    moreover from a have "\<not> p < Begin file" "\<not> End file < p"
      by (simp_all add: not_less)
    ultimately show "ComputeSize ?d p = Inl (CHECK_failed ''it != offsets_.end()'')"
      by (simp add: ComputeSize_def new_OatDumper_def Let_def) }
  { assume a: "Begin file \<le> p \<and> p \<le> End file"
    then have rng: "\<not> p < Begin file" "\<not> End file < p" by (simp_all add: not_less)
    show "ComputeSize ?d p \<noteq> Inr 0"
    proof (cases "upper_bound (offsets ?d) (p - Begin file)")
      case None
      with rng show ?thesis by (simp add: ComputeSize_def new_OatDumper_def Let_def)
    next
      case (Some y)
      then have "p - Begin file < y" using upper_bound_Some [OF srt] by blast
      then have "y - (p - Begin file) \<noteq> 0" by unat_arith
      with Some rng show ?thesis by (simp add: ComputeSize_def new_OatDumper_def Let_def)
    qed }
qed

theorem ComputeSize_sentinel_witness:
  "Begin example_oat_file \<le> 0x10FF \<and> 0x10FF < End example_oat_file
   \<and> (\<exists>n. ComputeSize (new_OatDumper example_oat_file) 0x10FF = Inr n \<and> 0 < n)
   \<and> Begin example_oat_file \<le> 0x1100 \<and> 0x1100 \<le> End example_oat_file
   \<and> \<not> (\<exists>x \<in> set (offsets (new_OatDumper example_oat_file)). 0x1100 - Begin example_oat_file < x)
   \<and> ComputeSize (new_OatDumper example_oat_file) 0x1100 = Inl (CHECK_failed ''it != offsets_.end()'')
   \<and> ComputeSize (new_OatDumper example_oat_file) 0x1100 \<noteq> Inr 0"
proof -
  let ?d = "new_OatDumper example_oat_file"
  have h1: "Begin example_oat_file \<le> 0x10FF \<and> 0x10FF < End example_oat_file"
    by (simp add: example_bounds)
  have h2: "Begin example_oat_file \<le> 0x1100 \<and> 0x1100 \<le> End example_oat_file
      \<and> \<not> (\<exists>x \<in> set (offsets ?d). 0x1100 - Begin example_oat_file < x)"
    by (simp add: example_offsets example_bounds)
  show ?thesis
    using h1 h2
      ComputeSize_sentinel [of example_oat_file "0x10FF", THEN conjunct1, rule_format, OF h1]
      ComputeSize_sentinel [of example_oat_file "0x1100", THEN conjunct2, THEN conjunct1,
        rule_format, OF h2]
    by simp
qed

text \<open>
  C10. A lookup at an address below \<open>Begin\<close> or above \<open>End\<close> returns 0 and does not fail;
  a lookup that fails was made at an address in \<open>[Begin, End]\<close>; and the registry of the
  oat dumper is the same after a size query as before it.
\<close>

theorem ComputeSize_outside_file:
  "(p < Begin (oat_file d) \<or> End (oat_file d) < p \<longrightarrow> ComputeSize d p = Inr 0)
   \<and> (ComputeSize d p = Inl e \<longrightarrow> Begin (oat_file d) \<le> p \<and> p \<le> End (oat_file d))
   \<and> (ComputeOatSize st p = Inr (st', first_occurrence, n) \<longrightarrow> oat_dumper st' = oat_dumper st)"
  by (auto simp: ComputeSize_def ComputeOatSize_def Let_def
      split: if_splits option.splits sum.splits)

theorem ComputeSize_outside_file_witness:
  "ComputeSize (new_OatDumper example_oat_file) 0xFFF = Inr 0
   \<and> ComputeSize (new_OatDumper example_oat_file) 0x1101 = Inr 0
   \<and> ComputeSize (new_OatDumper example_oat_file) 0x1100 = Inl (CHECK_failed ''it != offsets_.end()'')
   \<and> Begin example_oat_file \<le> 0x1100 \<and> 0x1100 \<le> End example_oat_file
   \<and> ComputeOatSize \<lparr>already_seen = {}, oat_dumper = new_OatDumper example_oat_file\<rparr> 0x1101
       = Inr (\<lparr>already_seen = {0x1101}, oat_dumper = new_OatDumper example_oat_file\<rparr>, True, 0)"
proof -
  let ?d = "new_OatDumper example_oat_file"
  let ?st = "\<lparr>already_seen = {}, oat_dumper = ?d\<rparr>"
  have a: "ComputeSize ?d 0xFFF = Inr 0"
    using ComputeSize_outside_file [of "0xFFF" ?d, THEN conjunct1]
    by (simp add: example_bounds)
  have b: "ComputeSize ?d 0x1101 = Inr 0"
    using ComputeSize_outside_file [of "0x1101" ?d, THEN conjunct1]
    by (simp add: example_bounds)
  have c: "ComputeSize ?d 0x1100 = Inl (CHECK_failed ''it != offsets_.end()'')"
    by (simp add: ComputeSize_def example_offsets example_bounds)
  have d: "Begin example_oat_file \<le> 0x1100 \<and> 0x1100 \<le> End example_oat_file"
    using ComputeSize_outside_file [of "0x1100" ?d, THEN conjunct2, THEN conjunct1, rule_format, OF c]
    by (simp add: example_bounds)
  have e: "ComputeOatSize ?st 0x1101 = Inr (\<lparr>already_seen = {0x1101}, oat_dumper = ?d\<rparr>, True, 0)"
    by (simp add: ComputeOatSize_def b)
  show ?thesis using a b c d e by simp
qed

section \<open>First occurrence\<close>

lemma ComputeOatSize_Inr:
  "ComputeOatSize st a = Inr (st', f, n) \<longleftrightarrow>
     (st' = st\<lparr>already_seen := insert a (already_seen st)\<rparr> \<and> f = (a \<notin> already_seen st)
      \<and> ComputeSize (oat_dumper st) a = Inr n)"
  by (auto simp: ComputeOatSize_def Let_def insert_absorb split: if_splits sum.splits)

lemma ComputeOatSize_session_Inr:
  assumes "ComputeOatSize_session st as = Inr (st', rs)"
  shows "length rs = length as \<and> oat_dumper st' = oat_dumper st
     \<and> already_seen st' = already_seen st \<union> set as
     \<and> (\<forall>k < length as. fst (rs ! k) = (as ! k \<notin> already_seen st \<union> set (take k as))
                          \<and> ComputeSize (oat_dumper st) (as ! k) = Inr (snd (rs ! k)))"
  using assms
proof (induction as arbitrary: st rs)
  case Nil
  then show ?case by simp
next
  case (Cons a as)
  from Cons.prems obtain st1 f n rs1 where
    1: "ComputeOatSize st a = Inr (st1, f, n)" and
    2: "ComputeOatSize_session st1 as = Inr (st', rs1)" and
    3: "rs = (f, n) # rs1"
    by (auto split: sum.splits)
  note s1 = 1 [unfolded ComputeOatSize_Inr]
  note ih = Cons.IH [OF 2]
  have od: "oat_dumper st1 = oat_dumper st"
    and seen: "already_seen st1 = insert a (already_seen st)"
    using s1 by simp_all
  show ?case
  proof (intro conjI allI impI)
    show "length rs = length (a # as)" using ih 3 by simp
    show "oat_dumper st' = oat_dumper st" using ih od by simp
    show "already_seen st' = already_seen st \<union> set (a # as)" using ih seen by auto
  next
    fix k assume k: "k < length (a # as)"
    show "fst (rs ! k) = ((a # as) ! k \<notin> already_seen st \<union> set (take k (a # as)))"
    proof (cases k)
      case 0
      then show ?thesis using s1 3 by simp
    next
      case (Suc j)
      then show ?thesis using ih k 3 seen by auto
    qed
    show "ComputeSize (oat_dumper st) ((a # as) ! k) = Inr (snd (rs ! k))"
    proof (cases k)
      case 0
      then show ?thesis using s1 3 by simp
    next
      case (Suc j)
      then show ?thesis using ih k 3 od by auto
    qed
  qed
qed

lemma ComputeOatSize_session_total:
  "\<forall>a \<in> set as. \<exists>n. ComputeSize (oat_dumper st) a = Inr n \<Longrightarrow>
     \<exists>st' rs. ComputeOatSize_session st as = Inr (st', rs)"
proof (induction as arbitrary: st)
  case Nil
  then show ?case by simp
next
  case (Cons a as)
  from Cons.prems obtain n where n: "ComputeSize (oat_dumper st) a = Inr n" by auto
  let ?st1 = "st\<lparr>already_seen := insert a (already_seen st)\<rparr>"
  have 1: "ComputeOatSize st a = Inr (?st1, a \<notin> already_seen st, n)"
    using n by (simp add: ComputeOatSize_Inr)
  have "\<forall>b \<in> set as. \<exists>n. ComputeSize (oat_dumper ?st1) b = Inr n"
    using Cons.prems by simp
  from Cons.IH [OF this] obtain st' rs where "ComputeOatSize_session ?st1 as = Inr (st', rs)"
    by blast
  with 1 show ?case by simp
qed

text \<open>
  C7. In a session of size queries that starts with no address seen (or with any set of
  addresses seen), the flag returned for the query at position \<open>k\<close> is true exactly when
  its address was not seen before the session and was not queried at an earlier position
  (so it is true at the first query of an address and false at every later one), and the
  size returned is the one \<open>ComputeSize\<close> gives for that address. The session returns
  whenever each of its lookups does.
\<close>

theorem ComputeOatSize_first_occurrence:
  "(ComputeOatSize_session st as = Inr (st', rs)
      \<longrightarrow> length rs = length as \<and> oat_dumper st' = oat_dumper st
          \<and> already_seen st' = already_seen st \<union> set as
          \<and> (\<forall>k < length as.
                fst (rs ! k) = (as ! k \<notin> already_seen st \<union> set (take k as))
                \<and> ComputeSize (oat_dumper st) (as ! k) = Inr (snd (rs ! k))))
   \<and> ((\<forall>a \<in> set as. \<exists>n. ComputeSize (oat_dumper st) a = Inr n)
      \<longrightarrow> (\<exists>st' rs. ComputeOatSize_session st as = Inr (st', rs)))"
  using ComputeOatSize_session_Inr [of st as st' rs] ComputeOatSize_session_total [of as st]
  by blast

theorem ComputeOatSize_first_occurrence_witness:
  "ComputeOatSize_session \<lparr>already_seen = {}, oat_dumper = new_OatDumper example_oat_file\<rparr>
       [0x1040, 0x1060, 0x1040, 0, 0x1040]
     = Inr (\<lparr>already_seen = {0, 0x1040, 0x1060}, oat_dumper = new_OatDumper example_oat_file\<rparr>,
            [(True, 0x20), (True, 0x10), (False, 0x20), (True, 0), (False, 0x20)])
   \<and> fst ([(True, 0x20 :: u32), (True, 0x10), (False, 0x20), (True, 0), (False, 0x20)] ! 2)
       = ([0x1040 :: u32, 0x1060, 0x1040, 0, 0x1040] ! 2
            \<notin> {} \<union> set (take 2 [0x1040, 0x1060, 0x1040, 0, 0x1040]))
   \<and> (\<exists>st' rs. ComputeOatSize_session
          \<lparr>already_seen = {}, oat_dumper = new_OatDumper example_oat_file\<rparr> [0x1040, 0x1060]
        = Inr (st', rs))"
proof -
  let ?d = "new_OatDumper example_oat_file"
  let ?st = "\<lparr>already_seen = {}, oat_dumper = ?d\<rparr>"
  let ?as = "[0x1040 :: u32, 0x1060, 0x1040, 0, 0x1040]"
  let ?rs = "[(True, 0x20 :: u32), (True, 0x10), (False, 0x20), (True, 0), (False, 0x20)]"
  have sz: "ComputeSize ?d 0x1040 = Inr 0x20" "ComputeSize ?d 0x1060 = Inr 0x10"
      "ComputeSize ?d 0 = Inr 0"
    by (simp_all add: ComputeSize_def example_offsets example_bounds)
  have run: "ComputeOatSize_session ?st ?as
      = Inr (\<lparr>already_seen = {0, 0x1040, 0x1060}, oat_dumper = ?d\<rparr>, ?rs)"
    by (simp add: ComputeOatSize_def sz insert_commute)
  from ComputeOatSize_first_occurrence [THEN conjunct1, rule_format, OF run]
  have 1: "fst (?rs ! 2) = (?as ! 2 \<notin> already_seen ?st \<union> set (take 2 ?as))"
    by simp
  have h: "\<forall>a \<in> set [0x1040, 0x1060]. \<exists>n. ComputeSize (oat_dumper ?st) a = Inr n"
    by (simp add: sz)
  from ComputeOatSize_first_occurrence [THEN conjunct2, THEN mp, OF h]
  have 2: "\<exists>st' rs. ComputeOatSize_session ?st [0x1040, 0x1060] = Inr (st', rs)" .
  from run 1 2 show ?thesis by simp
qed

section \<open>The vmap scan\<close>

lemma unat_and_1: "unat ((w :: u32) AND 1) = (if bit w 0 then 1 else 0)"
proof -
  have "unat (w AND 1) = unat w mod 2" by (simp add: and_one_eq unat_mod)
  moreover have "even w \<longleftrightarrow> even (unat w)"
    using even_of_nat [of "unat w", where ?'a = u32] by simp
  ultimately show ?thesis
    by (auto simp: bit_0 even_iff_mod_2_eq_zero odd_iff_mod_2_eq_one)
qed

lemma vmap_scan_step:
  "matches \<noteq> target \<Longrightarrow> spill_mask \<noteq> 0 \<Longrightarrow>
     vmap_scan fp_mask target matches spill_shifts spill_mask processing_fp =
     vmap_scan fp_mask target (matches + (if bit spill_mask 0 then 1 else 0)) (Suc spill_shifts)
       (drop_bit 1 spill_mask) processing_fp"
  by (subst vmap_scan.simps) (simp add: unat_and_1)

lemma vmap_scan_found:
  "vmap_scan fp_mask target target spill_shifts spill_mask processing_fp = Inr spill_shifts"
  by (subst vmap_scan.simps) simp

lemma vmap_scan_exhausted:
  "matches \<noteq> target \<Longrightarrow>
     vmap_scan fp_mask target matches spill_shifts 0 True = Inl (CHECK_failed ''!processing_fp'')"
  by (subst vmap_scan.simps) simp

lemma vmap_scan_switch:
  "matches \<noteq> target \<Longrightarrow>
     vmap_scan fp_mask target matches spill_shifts 0 False =
     vmap_scan fp_mask target (matches + (if bit fp_mask 0 then 1 else 0)) (Suc spill_shifts)
       (drop_bit 1 fp_mask) True"
  by (subst vmap_scan.simps) (simp add: unat_and_1)

lemma scan_result_Nil: "scan_result [] n s = Inl (CHECK_failed ''!processing_fp'')"
  by (simp add: scan_result_def)

lemma scan_result_Cons:
  "scan_result (b # bs) n s =
     (if b then (case n of 0 \<Rightarrow> Inr (Suc s) | Suc m \<Rightarrow> scan_result bs m (Suc s))
      else scan_result bs n (Suc s))"
  by (auto simp: scan_result_def split: nat.splits option.splits)

lemma mask_bits_0: "mask_bits 0 = []"
  by (subst mask_bits.simps) simp

lemma mask_bits_rec: "w \<noteq> 0 \<Longrightarrow> mask_bits w = bit w 0 # mask_bits (drop_bit 1 w)"
  by (subst mask_bits.simps) simp

lemma vmap_scan_bits:
  "matches < target \<Longrightarrow>
     vmap_scan fp_mask target matches spill_shifts spill_mask processing_fp =
     scan_result (mask_bits spill_mask @ (if processing_fp then [] else mask_bits fp_mask))
       (target - matches - 1) spill_shifts"
proof (induction fp_mask target matches spill_shifts spill_mask processing_fp
    rule: vmap_scan.induct)
  case (1 fp_mask target matches spill_shifts spill_mask processing_fp)
  from "1.prems" have ne: "matches \<noteq> target" by simp
  let ?rest = "if processing_fp then [] else mask_bits fp_mask"
  have advance: "vmap_scan fp_mask target (matches + (if bit w 0 then 1 else 0)) (Suc s)
        (drop_bit 1 w) pf
      = scan_result (bit w 0 # mask_bits (drop_bit 1 w) @ (if pf then [] else mask_bits fp_mask))
          (target - matches - 1) s"
    if ih: "matches + (if bit w 0 then 1 else 0) < target \<Longrightarrow>
        vmap_scan fp_mask target (matches + (if bit w 0 then 1 else 0)) (Suc s) (drop_bit 1 w) pf
        = scan_result (mask_bits (drop_bit 1 w) @ (if pf then [] else mask_bits fp_mask))
            (target - (matches + (if bit w 0 then 1 else 0)) - 1) (Suc s)"
    for w s pf
  proof (cases "bit w 0")
    case b: True
    show ?thesis
    proof (cases "Suc matches = target")
      case True
      with b show ?thesis by (simp add: scan_result_Cons vmap_scan_found)
    next
      case False
      with "1.prems" have lt: "Suc matches < target" by simp
      then have m: "target - Suc matches = Suc (target - Suc (Suc matches))" by arith
      from ih b lt show ?thesis by (simp add: scan_result_Cons m)
    qed
  next
    case False
    with ih "1.prems" show ?thesis by (simp add: scan_result_Cons)
  qed
  show ?case
  proof (cases "spill_mask = 0")
    case z: True
    show ?thesis
    proof (cases processing_fp)
      case True
      with z ne show ?thesis by (simp add: vmap_scan_exhausted mask_bits_0 scan_result_Nil)
    next
      case pf: False
      have sw: "vmap_scan fp_mask target matches spill_shifts 0 False =
          vmap_scan fp_mask target (matches + (if bit fp_mask 0 then 1 else 0)) (Suc spill_shifts)
            (drop_bit 1 fp_mask) True"
        by (rule vmap_scan_switch [OF ne])
      show ?thesis
      proof (cases "fp_mask = 0")
        case True
        have "vmap_scan 0 target matches (Suc spill_shifts) 0 True
            = Inl (CHECK_failed ''!processing_fp'')"
          by (rule vmap_scan_exhausted [OF ne])
        with True z pf sw show ?thesis by (simp add: mask_bits_0 scan_result_Nil)
      next
        case False
        have "vmap_scan fp_mask target (matches + (if bit fp_mask 0 then 1 else 0))
              (Suc spill_shifts) (drop_bit 1 fp_mask) True
            = scan_result (bit fp_mask 0 # mask_bits (drop_bit 1 fp_mask) @ (if True then [] else mask_bits fp_mask))
                (target - matches - 1) spill_shifts"
        proof (rule advance)
          assume "matches + (if bit fp_mask 0 then 1 else 0) < target"
          with "1.IH"(1) [OF ne z] pf
          show "vmap_scan fp_mask target (matches + (if bit fp_mask 0 then 1 else 0))
                (Suc spill_shifts) (drop_bit 1 fp_mask) True
              = scan_result (mask_bits (drop_bit 1 fp_mask) @ (if True then [] else mask_bits fp_mask))
                  (target - (matches + (if bit fp_mask 0 then 1 else 0)) - 1) (Suc spill_shifts)"
            by (simp add: unat_and_1)
        qed
        with False z pf sw show ?thesis by (simp add: mask_bits_0 mask_bits_rec)
      qed
    qed
  next
    case nz: False
    have "vmap_scan fp_mask target (matches + (if bit spill_mask 0 then 1 else 0))
          (Suc spill_shifts) (drop_bit 1 spill_mask) processing_fp
        = scan_result (bit spill_mask 0 # mask_bits (drop_bit 1 spill_mask) @ ?rest)
            (target - matches - 1) spill_shifts"
    proof (rule advance)
      assume "matches + (if bit spill_mask 0 then 1 else 0) < target"
      with "1.IH"(2) [OF ne nz]
      show "vmap_scan fp_mask target (matches + (if bit spill_mask 0 then 1 else 0))
            (Suc spill_shifts) (drop_bit 1 spill_mask) processing_fp
          = scan_result (mask_bits (drop_bit 1 spill_mask) @ ?rest)
              (target - (matches + (if bit spill_mask 0 then 1 else 0)) - 1) (Suc spill_shifts)"
        by (simp add: unat_and_1)
    qed
    with nz show ?thesis
      by (simp only: vmap_scan_step [OF ne nz] mask_bits_rec [OF nz] append_Cons)
  qed
qed

lemma DumpVmap_entry_bits:
  "DumpVmap_entry gp fp i v =
     (case nth_set_bit (mask_bits gp @ mask_bits fp) i of
        None \<Rightarrow> Inl (CHECK_failed ''!processing_fp'')
      | Some k \<Rightarrow> Inr (v, vmap_reg_of k))"
  by (simp add: DumpVmap_entry_def vmap_scan_bits scan_result_def split: option.splits)

subsection \<open>The helper functions say what they should\<close>

lemma nth_set_bit_None: "nth_set_bit bs n = None \<longleftrightarrow> length (filter (\<lambda>b. b) bs) \<le> n"
  by (induction bs arbitrary: n) (auto split: nat.splits)

lemma nth_set_bit_Some:
  "nth_set_bit bs n = Some k \<longleftrightarrow> k < length bs \<and> bs ! k \<and> length (filter (\<lambda>b. b) (take k bs)) = n"
proof (induction bs arbitrary: n k)
  case Nil
  then show ?case by simp
next
  case (Cons b bs)
  show ?case
  proof (cases k)
    case 0
    then show ?thesis by (auto split: nat.splits)
  next
    case (Suc j)
    then show ?thesis using Cons.IH by (auto split: nat.splits)
  qed
qed

lemma length_mask_bits: "length (mask_bits w) \<le> 32 \<and> (\<forall>k \<ge> length (mask_bits w). \<not> bit w k)"
proof -
  have "drop_bit n w = 0 \<longrightarrow> length (mask_bits (drop_bit m w)) \<le> n - m
      \<and> (\<forall>k \<ge> length (mask_bits (drop_bit m w)). \<not> bit (drop_bit m w) k)" if "m \<le> n" for n m
    using that
  proof (induction "n - m" arbitrary: m)
    case 0
    then show ?case by (simp add: mask_bits_0)
  next
    case (Suc d)
    show ?case
    proof (intro impI)
      assume z: "drop_bit n w = 0"
      show "length (mask_bits (drop_bit m w)) \<le> n - m
          \<and> (\<forall>k \<ge> length (mask_bits (drop_bit m w)). \<not> bit (drop_bit m w) k)"
      proof (cases "drop_bit m w = 0")
        case True
        then show ?thesis by (simp add: mask_bits_0)
      next
        case False
        from Suc.hyps(2) Suc.prems have d: "d = n - Suc m" "Suc m \<le> n" by simp_all
        from Suc.hyps(1) [OF d] z
        have ih: "length (mask_bits (drop_bit (Suc m) w)) \<le> n - Suc m"
          "\<And>k. k \<ge> length (mask_bits (drop_bit (Suc m) w)) \<Longrightarrow> \<not> bit (drop_bit (Suc m) w) k"
          by simp_all
        have eq: "drop_bit 1 (drop_bit m w) = drop_bit (Suc m) w" by simp
        have mb: "mask_bits (drop_bit m w) = bit (drop_bit m w) 0 # mask_bits (drop_bit (Suc m) w)"
          using mask_bits_rec [OF False] eq by simp
        have "\<not> bit (drop_bit m w) k" if "k \<ge> length (mask_bits (drop_bit m w))" for k
        proof -
          from that mb obtain j where j: "k = Suc j" "j \<ge> length (mask_bits (drop_bit (Suc m) w))"
            by (cases k) simp_all
          from ih(2) [OF j(2)] show ?thesis by (simp add: j(1) bit_drop_bit_eq)
        qed
        with ih(1) mb d show ?thesis by simp
      qed
    qed
  qed
  from this [of 0 32] show ?thesis by simp
qed

lemma nth_mask_bits: "k < length (mask_bits w) \<Longrightarrow> mask_bits w ! k = bit w k"
proof (induction w arbitrary: k rule: mask_bits.induct)
  case (1 w)
  show ?case
  proof (cases "w = 0")
    case True
    with "1.prems" show ?thesis by (simp add: mask_bits_0)
  next
    case False
    show ?thesis
    proof (cases k)
      case 0
      then show ?thesis by (simp add: mask_bits_rec [OF False])
    next
      case (Suc j)
      with "1.prems" have "j < length (mask_bits (drop_bit 1 w))"
        by (simp add: mask_bits_rec [OF False])
      from "1.IH" [OF False this] Suc show ?thesis
        by (simp add: mask_bits_rec [OF False] bit_drop_bit_eq)
    qed
  qed
qed

lemma last_mask_bits: "w \<noteq> 0 \<Longrightarrow> bit w (length (mask_bits w) - 1)"
proof (induction w rule: mask_bits.induct)
  case (1 w)
  show ?case
  proof (cases "drop_bit 1 w = 0")
    case True
    have "bit w 0"
    proof (rule ccontr)
      assume nb: "\<not> bit w 0"
      have "w = 0"
      proof (rule bit_word_eqI)
        fix k assume "k < LENGTH(32)"
        have "\<not> bit w k"
        proof (cases k)
          case 0
          with nb show ?thesis by simp
        next
          case (Suc j)
          have "bit (drop_bit 1 w) j = bit w (Suc j)" by (simp add: bit_drop_bit_eq)
          with True Suc show ?thesis by simp
        qed
        then show "bit w k \<longleftrightarrow> bit (0 :: u32) k" by simp
      qed
      with "1.prems" show False by simp
    qed
    with True "1.prems" show ?thesis by (simp add: mask_bits_rec mask_bits_0)
  next
    case False
    from "1.IH" [OF "1.prems" False]
    have "bit w (Suc (length (mask_bits (drop_bit 1 w)) - 1))" by (simp add: bit_drop_bit_eq)
    moreover have "length (mask_bits (drop_bit 1 w)) \<noteq> 0"
      using False by (simp add: mask_bits_rec)
    ultimately show ?thesis using "1.prems" by (simp add: mask_bits_rec)
  qed
qed


lemma DumpVmap_loop_bits:
  "DumpVmap_loop gp fp i t =
     (if t = [] \<or> i + length t \<le> length (filter (\<lambda>b. b) (mask_bits gp @ mask_bits fp))
      then Inr (map (\<lambda>j. (t ! j, vmap_reg_of (the (nth_set_bit (mask_bits gp @ mask_bits fp) (i + j)))))
                  [0..<length t])
      else Inl (CHECK_failed ''!processing_fp''))"
proof (induction t arbitrary: i)
  case Nil
  then show ?case by (simp add: DumpVmap_entry_bits)
next
  case (Cons v t)
  let ?bs = "mask_bits gp @ mask_bits fp"
  show ?case
  proof (cases "nth_set_bit ?bs i")
    case None
    then have "length (filter (\<lambda>b. b) ?bs) \<le> i" by (simp only: nth_set_bit_None)
    with None show ?thesis by (simp add: DumpVmap_entry_bits)
  next
    case (Some k)
    then have "\<not> length (filter (\<lambda>b. b) ?bs) \<le> i"
      using nth_set_bit_None [of ?bs i] by simp
    then have lt: "i < length (filter (\<lambda>b. b) ?bs)" by simp
    have shift: "map (\<lambda>j. ((v # t) ! j, vmap_reg_of (the (nth_set_bit ?bs (i + j))))) [0..<Suc (length t)]
        = (v, vmap_reg_of k) # map (\<lambda>j. (t ! j, vmap_reg_of (the (nth_set_bit ?bs (Suc i + j))))) [0..<length t]"
      using Some by (simp add: upt_rec [of 0] map_Suc_upt [symmetric] del: upt_Suc)
    show ?thesis
      using Some lt Cons.IH [of "Suc i"] shift
      by (simp add: DumpVmap_entry_bits del: upt_Suc)
  qed
qed

section \<open>Decoding the vmap table\<close>

text \<open>
  C3. The claim: the slot of entry \<open>i\<close> is the position of the \<open>(i+1)\<close>-th set bit among the
  32 GP bits followed by the 32 FP bits, a GP register below 32 and else the FP register
  \<open>slot - 32\<close>; so an entry is always given a register that is spilled, under the number of
  its bit in its own mask. That is also how \<open>DumpSpillMask\<close> names the registers of the same
  two masks a few lines earlier in the same method dump. \<open>DumpVmap\<close> does not: it moves on
  to the FP mask as soon as the GP mask has no set bit left, keeps counting the shifts,
  and takes the count as a GP register below 16 and as the FP register \<open>count - 16\<close> from
  there on. With the core mask \<open>0x40E0\<close> (\<open>r5\<close>, \<open>r6\<close>, \<open>r7\<close>, \<open>r14\<close>) and the FP mask \<open>0x10000\<close>
  (\<open>fr16\<close>) the fifth entry is dumped as \<open>fr15\<close>, a register that is not spilled; with one
  GP and one FP register spilled (both masks 1) the second entry is dumped as \<open>r1\<close>, a GP
  register that is not spilled, instead of \<open>fr0\<close>.
\<close>

theorem DumpVmap_names_unspilled_register:
  "DumpVmap (Some [1, 2, 3, 4, 5]) 0x40E0 0x10000
     = Inr [(1, R 5), (2, R 6), (3, R 7), (4, R 14), (5, FR 15)]
   \<and> DumpSpillMask 0x40E0 False = [R 5, R 6, R 7, R 14]
   \<and> DumpSpillMask 0x10000 True = [FR 16]
   \<and> spec_decodeVirtualRegisterTable [1, 2, 3, 4, 5] 0x40E0 0x10000
     = Some [(1, R 5), (2, R 6), (3, R 7), (4, R 14), (5, FR 16)]
   \<and> DumpVmap (Some [5, 7]) 1 1 = Inr [(5, R 0), (7, R 1)]
   \<and> DumpSpillMask 1 False = [R 0]
   \<and> DumpSpillMask 1 True = [FR 0]
   \<and> spec_decodeVirtualRegisterTable [5, 7] 1 1 = Some [(5, R 0), (7, FR 0)]"
proof -
  have "DumpVmap (Some [1, 2, 3, 4, 5]) 0x40E0 0x10000
      = Inr [(1, R 5), (2, R 6), (3, R 7), (4, R 14), (5, FR 15)]"
    by code_simp
  moreover have "DumpSpillMask 0x40E0 False = [R 5, R 6, R 7, R 14]"
    by code_simp
  moreover have "DumpSpillMask 0x10000 True = [FR 16]"
    by code_simp
  moreover have "spec_decodeVirtualRegisterTable [1, 2, 3, 4, 5] 0x40E0 0x10000
      = Some [(1, R 5), (2, R 6), (3, R 7), (4, R 14), (5, FR 16)]"
    by code_simp
  moreover have "DumpVmap (Some [5, 7]) 1 1 = Inr [(5, R 0), (7, R 1)]"
    by (simp add: DumpVmap_def DumpVmap_entry_def vmap_scan.simps vmap_reg_of_def)
  moreover have "DumpSpillMask 1 False = [R 0]"
    by code_simp
  moreover have "DumpSpillMask 1 True = [FR 0]"
    by code_simp
  moreover have "spec_decodeVirtualRegisterTable [5, 7] 1 1 = Some [(5, R 0), (7, FR 0)]"
    by code_simp
  ultimately show ?thesis by simp
qed

section \<open>A malformed vmap table ends the report\<close>






section \<open>Decoding the mapping table\<close>

lemma entries_between_empty: "entries_between c raw a a = []"
  by (simp add: entries_between_def)

lemma entries_between_step:
  assumes "even a" "even b" "a < b"
  shows "entries_between c raw a b = (c + raw ! a, raw ! (a + 1)) # entries_between c raw (a + 2) b"
proof -
  from assms have lt: "a div 2 < b div 2" by (elim evenE) simp
  from assms(1) have a2: "2 * (a div 2) = a" by simp
  show ?thesis
    by (simp add: entries_between_def upt_rec [of "a div 2"] lt a2)
qed

lemma sections_MapEntry:
  "sections ts = s # ss \<Longrightarrow> sections (MapEntry a b # ts) = ((a, b) # s) # ss"
  by simp

lemma DumpMappingTable_loop_sections:
  assumes "even n" "n \<le> length raw" "even i" "i \<le> n"
  shows "\<exists>ts. DumpMappingTable_loop c raw n fwd i = Inr ts
     \<and> sections ts =
         (if i < fwd \<and> fwd \<le> n \<and> even fwd
          then [entries_between c raw i fwd, entries_between c raw fwd n]
          else [entries_between c raw i n])"
  using assms
proof (induction c raw n fwd i rule: DumpMappingTable_loop.induct)
  case (1 c raw n fwd i)
  show ?case
  proof (cases "i < n")
    case False
    with "1.prems" have "i = n" by simp
    then show ?thesis
      by (subst DumpMappingTable_loop.simps) (simp add: entries_between_empty)
  next
    case True
    with "1.prems" have i2: "i + 2 \<le> n" by (elim evenE) simp
    with "1.prems" have rd: "i + 1 < length raw" by simp
    from "1.prems" have ev2: "even (i + 2)" by simp
    from "1.IH" [OF True rd "1.prems"(1) "1.prems"(2) ev2 i2]
    obtain ts' where ts': "DumpMappingTable_loop c raw n fwd (i + 2) = Inr ts'"
      and sec': "sections ts' =
         (if i + 2 < fwd \<and> fwd \<le> n \<and> even fwd
          then [entries_between c raw (i + 2) fwd, entries_between c raw fwd n]
          else [entries_between c raw (i + 2) n])"
      by blast
    let ?e = "MapEntry (c + raw ! i) (raw ! (i + 1))"
    let ?sep = "if i + 2 = fwd then [SectionBreak] else if i + 2 < n then [Comma] else []"
    have run: "DumpMappingTable_loop c raw n fwd i = Inr (?e # ?sep @ ts')"
      using True rd ts' by (subst DumpMappingTable_loop.simps) simp
    have stepn: "entries_between c raw i n = (c + raw ! i, raw ! (i + 1)) # entries_between c raw (i + 2) n"
      using "1.prems" True by (intro entries_between_step) simp_all
    let ?goal = "if i < fwd \<and> fwd \<le> n \<and> even fwd
          then [entries_between c raw i fwd, entries_between c raw fwd n]
          else [entries_between c raw i n]"
    have "sections (?e # ?sep @ ts') = ?goal"
    proof (cases "i + 2 = fwd")
      case eq: True
      have 1: "sections (?e # ?sep @ ts') = [(c + raw ! i, raw ! (i + 1))] # sections ts'"
        using eq by simp
      have 2: "sections ts' = [entries_between c raw fwd n]" using sec' eq by simp
      have "entries_between c raw i fwd
          = (c + raw ! i, raw ! (i + 1)) # entries_between c raw (i + 2) fwd"
        using "1.prems" eq ev2 by (intro entries_between_step) simp_all
      then have 3: "entries_between c raw i fwd = [(c + raw ! i, raw ! (i + 1))]"
        using eq by (simp only: entries_between_empty)
      have 4: "i < fwd \<and> fwd \<le> n \<and> even fwd" using eq i2 ev2 by auto
      show ?thesis by (simp only: 1 2 3 4 simp_thms if_True)
    next
      case ne: False
      have cons: "sections (?e # ?sep @ ts') = ((c + raw ! i, raw ! (i + 1)) # s) # ss"
        if "sections ts' = s # ss" for s ss
        using that ne by simp
      show ?thesis
      proof (cases "i < fwd \<and> fwd \<le> n \<and> even fwd")
        case c: True
        with ne "1.prems" have lt2: "i + 2 < fwd \<and> fwd \<le> n \<and> even fwd"
          by (elim conjE evenE) simp
        have 1: "sections ts' = [entries_between c raw (i + 2) fwd, entries_between c raw fwd n]"
          using sec' lt2 by (simp only: simp_thms if_True)
        have 2: "entries_between c raw i fwd
            = (c + raw ! i, raw ! (i + 1)) # entries_between c raw (i + 2) fwd"
          using "1.prems" c by (intro entries_between_step) simp_all
        show ?thesis by (simp only: cons [OF 1] 2 c simp_thms if_True)
      next
        case nc: False
        then have nc2: "\<not> (i + 2 < fwd \<and> fwd \<le> n \<and> even fwd)" by auto
        have 1: "sections ts' = [entries_between c raw (i + 2) n]"
          using sec' nc2 by (simp only: simp_thms if_False)
        show ?thesis by (simp only: cons [OF 1] stepn nc simp_thms if_False)
      qed
    qed
    with run show ?thesis by blast
  qed
qed

text \<open>
  C8, as claimed: the blob with the counts 4 and 2 in front of the pairs
  \<open>(0x10,3), (0x20,5), (3,0x10), (5,0x20)\<close> yields those first two pairs as the forward
  section and the last two as the reverse section. The two counts are numbers of 32-bit
  entries, two to a pair: the dump of that blob reads two pairs only, the first into the
  forward section and the second into the reverse section (the native PC is printed as
  an address, \<open>code + offset\<close>, here with \<open>code = 0x1040\<close>).
\<close>

theorem DumpMappingTable_spec_blob_counterexample:
  "DumpMappingTable spec_blob_method
     = Inr [MapEntry (0x1040 + 0x10) 3, SectionBreak, MapEntry (0x1040 + 0x20) 5]
   \<and> sections [MapEntry (0x1040 + 0x10) 3, SectionBreak, MapEntry (0x1040 + 0x20) 5]
     = [[(0x1040 + 0x10, 3)], [(0x1040 + 0x20, 5)]]
   \<and> [[(0x1040 + 0x10, 3)], [(0x1040 + 0x20, 5)]]
       \<noteq> [[(0x1040 + 0x10, 3), (0x1040 + 0x20, 5)], [(0x1040 + 3, 0x10), (0x1040 + 5, 0x20 :: u32)]]"
  by (simp add: spec_blob_method_def example_method_def DumpMappingTable_def
      DumpMappingTable_loop.simps)

text \<open>
  C8, amended: the blob is \<open>[length][pc_to_dex_entries][entries...]\<close>, both counts being
  numbers of 32-bit entries (two per pair). For a method with code, an even \<open>length\<close> and
  at least \<open>length\<close> entries in the blob, the dump reads the \<open>length/2\<close> pairs in order and
  splits them by position alone: when \<open>pc_to_dex_entries\<close> is even, positive and at most
  \<open>length\<close>, the first \<open>pc_to_dex_entries/2\<close> pairs form the forward section and the
  remaining pairs the reverse section; otherwise all pairs stay in one group. E.g. the
  counts 8 and 4 in front of \<open>(0x10,3), (0x20,5), (3,0x10), (5,0x20)\<close> yield the forward
  section \<open>(0x10,3), (0x20,5)\<close> and the reverse section \<open>(3,0x10), (5,0x20)\<close>, the first
  component of each pair printed as \<open>code + offset\<close>.
\<close>

theorem DumpMappingTable_positional_split:
  assumes "mapping_table m = Some (table_length # pc_to_dex_entries # entries)"
    and "code m \<noteq> 0"
    and "even (unat table_length)" and "unat table_length \<le> length entries"
  shows "\<exists>ts. DumpMappingTable m = Inr ts
     \<and> sections ts =
         (if 0 < unat pc_to_dex_entries \<and> unat pc_to_dex_entries \<le> unat table_length
             \<and> even (unat pc_to_dex_entries)
          then [entries_between (code m) entries 0 (unat pc_to_dex_entries),
                entries_between (code m) entries (unat pc_to_dex_entries) (unat table_length)]
          else [entries_between (code m) entries 0 (unat table_length)])"
  using DumpMappingTable_loop_sections [OF assms(3,4), of 0 "code m" "unat pc_to_dex_entries"]
    assms(1,2)
  by (simp add: DumpMappingTable_def)

theorem DumpMappingTable_positional_split_witness:
  "mapping_table example_method = Some (8 # 4 # [0x10, 3, 0x20, 5, 3, 0x10, 5, 0x20])
   \<and> code example_method \<noteq> 0
   \<and> (\<exists>ts. DumpMappingTable example_method = Inr ts
        \<and> sections ts = [[(0x1040 + 0x10, 3), (0x1040 + 0x20, 5)],
                          [(0x1040 + 3, 0x10), (0x1040 + 5, 0x20)]])"
proof -
  have h1: "mapping_table example_method = Some (8 # 4 # [0x10, 3, 0x20, 5, 3, 0x10, 5, 0x20])"
    and h2: "code example_method \<noteq> 0"
    by (simp_all add: example_method_def)
  have h3: "even (unat (8 :: u32))"
    and h4: "unat (8 :: u32) \<le> length [0x10, 3, 0x20, 5, 3, 0x10, 5, 0x20 :: u32]"
    by simp_all
  have c: "code example_method = 0x1040" by (simp add: example_method_def)
  have e1: "entries_between 0x1040 [0x10, 3, 0x20, 5, 3, 0x10, 5, 0x20] 0 4
      = [(0x1040 + 0x10, 3), (0x1040 + 0x20, 5)]"
    and e2: "entries_between 0x1040 [0x10, 3, 0x20, 5, 3, 0x10, 5, 0x20] 4 8
      = [(0x1040 + 3, 0x10), (0x1040 + 5, 0x20)]"
    by (simp_all add: entries_between_def upt_rec)
  from DumpMappingTable_positional_split [OF h1 h2 h3 h4] e1 e2
  have "\<exists>ts. DumpMappingTable example_method = Inr ts
        \<and> sections ts = [[(0x1040 + 0x10, 3), (0x1040 + 0x20, 5)],
                          [(0x1040 + 3, 0x10), (0x1040 + 5, 0x20)]]"
    by (simp add: c)
  with h1 h2 show ?thesis by blast
qed

section \<open>The outlier sweep\<close>

lemma outlier_scan_counts:
  "outlier_scan q z i j xs d s = (xs', d', s', out, jumped) \<Longrightarrow>
     d' = d + length out \<and> length xs' = length xs \<and> s \<le> s' \<and> (d \<le> 21 \<longrightarrow> d' \<le> 21)"
proof (induction xs arbitrary: j d s xs' d' s' out jumped)
  case Nil
  then show ?case by simp
next
  case (Cons x xs)
  show ?case
  proof (cases "q i x")
    case False
    with Cons.prems obtain r where
      "outlier_scan q z i (j + 1) xs d s = (r, d', s', out, jumped)" "xs' = x # r"
      by (auto split: prod.splits)
    with Cons.IH show ?thesis by fastforce
  next
    case qx: True
    show ?thesis
    proof (cases "d > 20")
      case False
      with qx Cons.prems obtain r o' where
        "outlier_scan q z i (j + 1) xs (d + 1) s = (r, d', s', o', jumped)"
        "xs' = z # r" "out = (j, x) # o'"
        by (auto split: prod.splits)
      with Cons.IH [of "j + 1" "d + 1" s r d' s' o' jumped] False show ?thesis by auto
    next
      case big: True
      show ?thesis
      proof (cases "i = 1")
        case False
        with qx big Cons.prems show ?thesis by auto
      next
        case True
        with qx big Cons.prems obtain r where
          "outlier_scan q z i (j + 1) xs d (s + 1) = (r, d', s', out, jumped)" "xs' = x # r"
          by (auto split: prod.splits)
        with Cons.IH [of "j + 1" d "s + 1" r d' s' out jumped] show ?thesis by auto
      qed
    qed
  qed
qed

lemma outlier_sweep_dumped:
  "outlier_sweep q z i xs d s = (xs', d', s', passes) \<Longrightarrow>
     d' = d + length (concat (map snd passes)) \<and> (d \<le> 21 \<longrightarrow> d' \<le> 21)"
proof (induction q z i xs d s arbitrary: xs' d' s' passes rule: outlier_sweep.induct)
  case (1 q z i xs d s)
  show ?case
  proof (cases "i > 0")
    case False
    with "1.prems" show ?thesis by (simp add: outlier_sweep.simps)
  next
    case True
    obtain xs1 d1 s1 out jumped where
      sc: "outlier_scan q z i 0 xs d s = (xs1, d1, s1, out, jumped)"
      by (metis prod_cases5)
    obtain xs2 d2 s2 ps where
      sw: "outlier_sweep q z ((if jumped then 2 else i) - 1) xs1 d1 s1 = (xs2, d2, s2, ps)"
      by (metis prod_cases4)
    from "1.prems" True sc sw have res: "d' = d2" "passes = (i, out) # ps"
      by (simp_all add: outlier_sweep.simps [of q z i])
    from "1.IH" [OF True sc [symmetric] refl refl refl sw]
    have "d2 = d1 + length (concat (map snd ps)) \<and> (d1 \<le> 21 \<longrightarrow> d2 \<le> 21)" .
    with outlier_scan_counts [OF sc] res show ?thesis by auto
  qed
qed

lemma outlier_scan_beyond_cap:
  "d > 20 \<Longrightarrow>
     outlier_scan q z 1 j xs d s = (xs, d, s + length (filter (q 1) xs), [], False)"
  by (induction xs arbitrary: j s) simp_all

lemma outlier_scan_last_pass:
  "d \<le> 21 \<Longrightarrow> outlier_scan q z 1 j xs d s = (xs', d', s', out, jumped) \<Longrightarrow>
     \<not> jumped \<and> d' = min 21 (d + length (filter (q 1) xs))
     \<and> s' = s + (d + length (filter (q 1) xs) - min 21 (d + length (filter (q 1) xs)))"
proof (induction xs arbitrary: j d s xs' d' s' out jumped)
  case Nil
  then show ?case by simp
next
  case (Cons x xs)
  show ?case
  proof (cases "q 1 x")
    case False
    with Cons.prems obtain r where
      "outlier_scan q z 1 (j + 1) xs d s = (r, d', s', out, jumped)"
      by (auto split: prod.splits)
    from Cons.IH [OF Cons.prems(1) this] False show ?thesis by simp
  next
    case qx: True
    show ?thesis
    proof (cases "d > 20")
      case True
      with qx Cons.prems obtain r where
        sc: "outlier_scan q z 1 (j + 1) xs d (s + 1) = (r, d', s', out, jumped)"
        by (auto split: prod.splits)
      from Cons.IH [OF Cons.prems(1) sc] qx True Cons.prems(1) show ?thesis by simp
    next
      case False
      with qx Cons.prems obtain r o' where
        sc: "outlier_scan q z 1 (j + 1) xs (d + 1) s = (r, d', s', o', jumped)"
        by (auto split: prod.splits)
      from False have "d + 1 \<le> 21" by simp
      from Cons.IH [OF this sc] qx show ?thesis by simp
    qed
  qed
qed

lemma outlier_scan_early_pass:
  assumes "\<not> q 1 z" and "\<And>x. q i x \<Longrightarrow> q 1 x" and "i \<noteq> 1"
  shows "outlier_scan q z i j xs d s = (xs', d', s', out, jumped) \<Longrightarrow>
     s' = s \<and> d' + length (filter (q 1) xs') = d + length (filter (q 1) xs)"
proof (induction xs arbitrary: j d s xs' d' s' out jumped)
  case Nil
  then show ?case by simp
next
  case (Cons x xs)
  show ?case
  proof (cases "q i x")
    case False
    with Cons.prems obtain r where
      "outlier_scan q z i (j + 1) xs d s = (r, d', s', out, jumped)" "xs' = x # r"
      by (auto split: prod.splits)
    with Cons.IH [of "j + 1" d s r d' s' out jumped] show ?thesis by simp
  next
    case qx: True
    then have q1: "q 1 x" by (rule assms(2))
    show ?thesis
    proof (cases "d > 20")
      case True
      with qx assms(3) Cons.prems show ?thesis by auto
    next
      case False
      with qx Cons.prems obtain r o' where
        "outlier_scan q z i (j + 1) xs (d + 1) s = (r, d', s', o', jumped)" "xs' = z # r"
        by (auto split: prod.splits)
      with Cons.IH [of "j + 1" "d + 1" s r d' s' o' jumped] q1 assms(1) show ?thesis by simp
    qed
  qed
qed

lemma outlier_sweep_counts:
  "(\<And>k x. 1 \<le> k \<Longrightarrow> k \<le> i \<Longrightarrow> q k x \<Longrightarrow> q 1 x) \<Longrightarrow> 1 \<le> i \<Longrightarrow> d \<le> 21 \<Longrightarrow>
     outlier_sweep q z i xs d s = (xs', d', s', passes) \<Longrightarrow> \<not> q 1 z \<Longrightarrow>
     d' = min 21 (d + length (filter (q 1) xs))
     \<and> s' = s + (d + length (filter (q 1) xs) - min 21 (d + length (filter (q 1) xs)))"
proof (induction q z i xs d s arbitrary: xs' d' s' passes rule: outlier_sweep.induct)
  case (1 q z i xs d s)
  from "1.prems"(2) have pos: "i > 0" by simp
  obtain xs1 d1 s1 out jumped where
    sc: "outlier_scan q z i 0 xs d s = (xs1, d1, s1, out, jumped)"
    by (metis prod_cases5)
  obtain xs2 d2 s2 ps where
    sw: "outlier_sweep q z ((if jumped then 2 else i) - 1) xs1 d1 s1 = (xs2, d2, s2, ps)"
    by (metis prod_cases4)
  from "1.prems"(4) pos sc sw have res: "d' = d2" "s' = s2"
    by (simp_all add: outlier_sweep.simps [of q z i])
  show ?case
  proof (cases "i = 1")
    case True
    from outlier_scan_last_pass [OF "1.prems"(3) sc [unfolded True]]
    have a: "\<not> jumped" "d1 = min 21 (d + length (filter (q 1) xs))"
      "s1 = s + (d + length (filter (q 1) xs) - min 21 (d + length (filter (q 1) xs)))"
      by simp_all
    from sw True a(1) have "d2 = d1" "s2 = s1" by (simp_all add: outlier_sweep.simps)
    with a res show ?thesis by simp
  next
    case False
    with pos have i2: "2 \<le> i" by simp
    have mono: "q i x \<Longrightarrow> q 1 x" for x using "1.prems"(1) [of i x] pos by simp
    from outlier_scan_early_pass [of q z i, OF "1.prems"(5) mono False sc]
    have b: "s1 = s" "d1 + length (filter (q 1) xs1) = d + length (filter (q 1) xs)"
      by simp_all
    from outlier_scan_counts [OF sc] "1.prems"(3) have d1: "d1 \<le> 21" by simp
    let ?i' = "(if jumped then 2 else i) - 1"
    from i2 have i': "1 \<le> ?i'" "?i' \<le> i" by auto
    have "d2 = min 21 (d1 + length (filter (q 1) xs1))
        \<and> s2 = s1 + (d1 + length (filter (q 1) xs1) - min 21 (d1 + length (filter (q 1) xs1)))"
    proof (rule "1.IH" [OF pos sc [symmetric] refl refl refl _ i'(1) d1 sw "1.prems"(5)])
      fix k x assume "1 \<le> k" "k \<le> ?i'" "q k x"
      with i'(2) show "q 1 x" using "1.prems"(1) [of k x] by simp
    qed
    with b res show ?thesis by simp
  qed
qed


lemma outlier_scan_jumped_cap:
  "outlier_scan q z i j xs d s = (xs', d', s', out, True) \<Longrightarrow> 20 < d'"
  by (induction xs arbitrary: j d s xs' d' s' out) (auto split: if_splits prod.splits)

lemma outlier_scan_idle:
  "\<forall>x \<in> set xs. \<not> q i x \<Longrightarrow> outlier_scan q z i j xs d s = (xs, d, s, [], False)"
  by (induction xs arbitrary: j) simp_all

lemma outlier_scan_jumps:
  "i \<noteq> 1 \<Longrightarrow> d \<le> 21 \<Longrightarrow> 21 < d + length (filter (q i) xs) \<Longrightarrow>
     \<exists>xs' d' s' out. outlier_scan q z i j xs d s = (xs', d', s', out, True)"
proof (induction xs arbitrary: j d)
  case Nil
  then show ?case by simp
next
  case (Cons x xs)
  show ?case
  proof (cases "q i x")
    case False
    with Cons.prems have "21 < d + length (filter (q i) xs)" by simp
    from Cons.IH [OF Cons.prems(1,2) this, of "j + 1"] False show ?thesis by auto
  next
    case qx: True
    show ?thesis
    proof (cases "d > 20")
      case True
      with qx Cons.prems(1) show ?thesis by simp
    next
      case False
      with qx Cons.prems have "d + 1 \<le> 21" "21 < (d + 1) + length (filter (q i) xs)" by simp_all
      from Cons.IH [OF Cons.prems(1) this, of "j + 1"] qx False show ?thesis by auto
    qed
  qed
qed

lemma outlier_sweep_after_jump:
  assumes "0 < i" and "outlier_scan q z i 0 xs d s = (xs1, d1, s1, out, True)"
  shows "outlier_sweep q z i xs d s
     = (xs1, d1, s1 + length (filter (q 1) xs1), [(i, out), (1, [])])"
proof -
  have big: "20 < d1" using assms(2) by (rule outlier_scan_jumped_cap)
  have "outlier_sweep q z 1 xs1 d1 s1 = (xs1, d1, s1 + length (filter (q 1) xs1), [(1, [])])"
    by (subst outlier_sweep.simps)
       (simp add: outlier_scan_beyond_cap [OF big, simplified] outlier_sweep.simps [of q z 0])
  with assms show ?thesis by (simp add: outlier_sweep.simps [of q z i])
qed

lemma outlier_sweep_idle:
  "lo \<le> i \<Longrightarrow> \<forall>k. lo < k \<and> k \<le> i \<longrightarrow> (\<forall>x \<in> set xs. \<not> q k x) \<Longrightarrow>
     outlier_sweep q z i xs d s =
     (case outlier_sweep q z lo xs d s of
        (xs', d', s', passes) \<Rightarrow> (xs', d', s', map (\<lambda>k. (k, [])) (rev [lo + 1..<i + 1]) @ passes))"
proof (induction i)
  case 0
  then show ?case by (simp split: prod.splits)
next
  case (Suc i)
  show ?case
  proof (cases "lo = Suc i")
    case True
    then show ?thesis by (simp split: prod.splits)
  next
    case False
    with Suc.prems have le: "lo \<le> i" by simp
    from Suc.prems False have idle: "\<forall>x \<in> set xs. \<not> q (Suc i) x" by simp
    have ih: "outlier_sweep q z i xs d s =
        (case outlier_sweep q z lo xs d s of
           (xs', d', s', passes) \<Rightarrow> (xs', d', s', map (\<lambda>k. (k, [])) (rev [lo + 1..<i + 1]) @ passes))"
      using Suc.prems by (intro Suc.IH le) simp
    have "outlier_sweep q z (Suc i) xs d s =
        (case outlier_sweep q z i xs d s of
           (xs', d', s', passes) \<Rightarrow> (xs', d', s', (Suc i, []) # passes))"
      by (simp add: outlier_sweep.simps [of q z "Suc i"]
          outlier_scan_idle [where q = q and i = "Suc i", OF idle])
    with ih le show ?thesis by (simp split: prod.splits)
  qed
qed

lemma outlier_scan_early_any:
  "i \<noteq> 1 \<Longrightarrow> outlier_scan q z i j xs d s = (xs', d', s', out, jumped) \<Longrightarrow>
     s' = s \<and> d + length (filter (q 1) xs) \<le> d' + length (filter (q 1) xs')"
proof (induction xs arbitrary: j d s xs' d' s' out jumped)
  case Nil
  then show ?case by simp
next
  case (Cons x xs)
  show ?case
  proof (cases "q i x")
    case False
    with Cons.prems obtain r where
      "outlier_scan q z i (j + 1) xs d s = (r, d', s', out, jumped)" "xs' = x # r"
      by (auto split: prod.splits)
    with Cons.IH [OF Cons.prems(1), of "j + 1" d s r d' s' out jumped] show ?thesis by simp
  next
    case qx: True
    show ?thesis
    proof (cases "d > 20")
      case True
      with qx Cons.prems show ?thesis by auto
    next
      case False
      with qx Cons.prems obtain r o' where
        "outlier_scan q z i (j + 1) xs (d + 1) s = (r, d', s', o', jumped)" "xs' = z # r"
        by (auto split: prod.splits)
      with Cons.IH [OF Cons.prems(1), of "j + 1" "d + 1" s r d' s' o' jumped] show ?thesis by simp
    qed
  qed
qed

lemma outlier_scan_early_remainder:
  "i \<noteq> 1 \<Longrightarrow> \<not> q 1 z \<Longrightarrow> outlier_scan q z i j xs d s = (xs', d', s', out, jumped) \<Longrightarrow>
     length (filter (q 1) xs') + length (filter (q 1) (map snd out)) = length (filter (q 1) xs)"
proof (induction xs arbitrary: j d s xs' d' s' out jumped)
  case Nil
  then show ?case by simp
next
  case (Cons x xs)
  show ?case
  proof (cases "q i x")
    case False
    with Cons.prems obtain r where
      "outlier_scan q z i (j + 1) xs d s = (r, d', s', out, jumped)" "xs' = x # r"
      by (auto split: prod.splits)
    with Cons.IH [OF Cons.prems(1,2), of "j + 1" d s r d' s' out jumped] show ?thesis by simp
  next
    case qx: True
    show ?thesis
    proof (cases "d > 20")
      case True
      with qx Cons.prems show ?thesis by auto
    next
      case False
      with qx Cons.prems obtain r o' where
        "outlier_scan q z i (j + 1) xs (d + 1) s = (r, d', s', o', jumped)" "xs' = z # r"
        "out = (j, x) # o'"
        by (auto split: prod.splits)
      with Cons.IH [OF Cons.prems(1,2), of "j + 1" "d + 1" s r d' s' o' jumped] Cons.prems(2)
      show ?thesis by simp
    qed
  qed
qed

lemma outlier_scan_last_remainder:
  "outlier_scan q z 1 j xs d s = (xs', d', s', out, jumped) \<Longrightarrow>
     s' + length (filter (q 1) (map snd out)) = s + length (filter (q 1) xs)"
proof (induction xs arbitrary: j d s xs' d' s' out jumped)
  case Nil
  then show ?case by simp
next
  case (Cons x xs)
  show ?case
  proof (cases "q 1 x")
    case False
    with Cons.prems obtain r where
      "outlier_scan q z 1 (j + 1) xs d s = (r, d', s', out, jumped)"
      by (auto split: prod.splits)
    from Cons.IH [OF this] False show ?thesis by simp
  next
    case qx: True
    show ?thesis
    proof (cases "d > 20")
      case True
      with qx Cons.prems obtain r where
        sc: "outlier_scan q z 1 (j + 1) xs d (s + 1) = (r, d', s', out, jumped)"
        by (auto split: prod.splits)
      from Cons.IH [OF sc] qx show ?thesis by simp
    next
      case False
      with qx Cons.prems obtain r o' where
        sc: "outlier_scan q z 1 (j + 1) xs (d + 1) s = (r, d', s', o', jumped)"
        and "out = (j, x) # o'"
        by (auto split: prod.splits)
      from Cons.IH [OF sc] qx this(2) show ?thesis by simp
    qed
  qed
qed

lemma outlier_sweep_exact:
  "1 \<le> i \<Longrightarrow> d \<le> 21 \<Longrightarrow> 21 \<le> d + length (filter (q 1) xs) \<Longrightarrow>
     outlier_sweep q z i xs d s = (xs', d', s', passes) \<Longrightarrow> d' = 21"
proof (induction q z i xs d s arbitrary: xs' d' s' passes rule: outlier_sweep.induct)
  case (1 q z i xs d s)
  from "1.prems"(1) have pos: "i > 0" by simp
  obtain xs1 d1 s1 out jumped where
    sc: "outlier_scan q z i 0 xs d s = (xs1, d1, s1, out, jumped)"
    by (metis prod_cases5)
  obtain xs2 d2 s2 ps where
    sw: "outlier_sweep q z ((if jumped then 2 else i) - 1) xs1 d1 s1 = (xs2, d2, s2, ps)"
    by (metis prod_cases4)
  from "1.prems"(4) pos sc sw have res: "d' = d2"
    by (simp add: outlier_sweep.simps [of q z i])
  show ?case
  proof (cases "i = 1")
    case True
    from outlier_scan_last_pass [OF "1.prems"(2) sc [unfolded True]] "1.prems"(3)
    have a: "\<not> jumped" "d1 = 21" by simp_all
    from sw True a(1) have "d2 = d1" by (simp add: outlier_sweep.simps)
    with a res show ?thesis by simp
  next
    case False
    with pos have i2: "2 \<le> i" by simp
    from outlier_scan_early_any [OF False sc] "1.prems"(3)
    have b: "21 \<le> d1 + length (filter (q 1) xs1)" by simp
    from outlier_scan_counts [OF sc] "1.prems"(2) have d1: "d1 \<le> 21" by simp
    let ?i' = "(if jumped then 2 else i) - 1"
    from i2 have i': "1 \<le> ?i'" by auto
    from "1.IH" [OF pos sc [symmetric] refl refl refl i' d1 b sw] res show ?thesis by simp
  qed
qed

lemma outlier_sweep_remainder:
  "1 \<le> i \<Longrightarrow> outlier_sweep q z i xs d s = (xs', d', s', passes) \<Longrightarrow> \<not> q 1 z \<Longrightarrow>
     s' + length (filter (q 1) (map snd (concat (map snd passes))))
       = s + length (filter (q 1) xs)"
proof (induction q z i xs d s arbitrary: xs' d' s' passes rule: outlier_sweep.induct)
  case (1 q z i xs d s)
  from "1.prems"(1) have pos: "i > 0" by simp
  obtain xs1 d1 s1 out jumped where
    sc: "outlier_scan q z i 0 xs d s = (xs1, d1, s1, out, jumped)"
    by (metis prod_cases5)
  obtain xs2 d2 s2 ps where
    sw: "outlier_sweep q z ((if jumped then 2 else i) - 1) xs1 d1 s1 = (xs2, d2, s2, ps)"
    by (metis prod_cases4)
  from "1.prems"(2) pos sc sw have res: "s' = s2" "passes = (i, out) # ps"
    by (simp_all add: outlier_sweep.simps [of q z i])
  show ?case
  proof (cases "i = 1")
    case True
    have nj: "\<not> jumped" using outlier_scan_jumped [of q z i 0 xs d s xs1 d1 s1 out] sc True
      by (cases jumped) simp_all
    from sw True nj have "s2 = s1" "ps = []" by (simp_all add: outlier_sweep.simps)
    with outlier_scan_last_remainder [OF sc [unfolded True]] res show ?thesis by simp
  next
    case False
    with pos have i2: "2 \<le> i" by simp
    from outlier_scan_early_any [OF False sc] have s1: "s1 = s" by simp
    from outlier_scan_early_remainder [OF False "1.prems"(3) sc]
    have b: "length (filter (q 1) xs1) + length (filter (q 1) (map snd out))
        = length (filter (q 1) xs)" .
    let ?i' = "(if jumped then 2 else i) - 1"
    from i2 have i': "1 \<le> ?i'" by auto
    from "1.IH" [OF pos sc [symmetric] refl refl refl i' sw "1.prems"(3)]
    have "s2 + length (filter (q 1) (map snd (concat (map snd ps))))
        = s1 + length (filter (q 1) xs1)" .
    with b s1 res show ?thesis by simp
  qed
qed

lemma outlier_scan_dumped_exceed:
  "outlier_scan q z i j xs d s = (xs', d', s', out, jumped) \<Longrightarrow> \<forall>p \<in> set out. q i (snd p)"
proof (induction xs arbitrary: j d s xs' d' s' out jumped)
  case Nil
  then show ?case by simp
next
  case (Cons x xs)
  show ?case
  proof (cases "q i x")
    case False
    with Cons.prems obtain r where
      "outlier_scan q z i (j + 1) xs d s = (r, d', s', out, jumped)"
      by (auto split: prod.splits)
    from Cons.IH [OF this] show ?thesis .
  next
    case qx: True
    show ?thesis
    proof (cases "d > 20")
      case False
      with qx Cons.prems obtain r o' where
        "outlier_scan q z i (j + 1) xs (d + 1) s = (r, d', s', o', jumped)" "out = (j, x) # o'"
        by (auto split: prod.splits)
      with Cons.IH [of "j + 1" "d + 1" s r d' s' o' jumped] qx show ?thesis by simp
    next
      case big: True
      show ?thesis
      proof (cases "i = 1")
        case False
        with qx big Cons.prems show ?thesis by auto
      next
        case True
        with qx big Cons.prems obtain r where
          "outlier_scan q z i (j + 1) xs d (s + 1) = (r, d', s', out, jumped)"
          by (auto split: prod.splits)
        from Cons.IH [OF this] show ?thesis .
      qed
    qed
  qed
qed

lemma outlier_sweep_dumped_exceed:
  "outlier_sweep q z i xs d s = (xs', d', s', passes) \<Longrightarrow>
     \<forall>pass \<in> set passes. 1 \<le> fst pass \<and> fst pass \<le> i \<and> (\<forall>p \<in> set (snd pass). q (fst pass) (snd p))"
proof (induction q z i xs d s arbitrary: xs' d' s' passes rule: outlier_sweep.induct)
  case (1 q z i xs d s)
  show ?case
  proof (cases "i > 0")
    case False
    with "1.prems" show ?thesis by (simp add: outlier_sweep.simps)
  next
    case True
    obtain xs1 d1 s1 out jumped where
      sc: "outlier_scan q z i 0 xs d s = (xs1, d1, s1, out, jumped)"
      by (metis prod_cases5)
    obtain xs2 d2 s2 ps where
      sw: "outlier_sweep q z ((if jumped then 2 else i) - 1) xs1 d1 s1 = (xs2, d2, s2, ps)"
      by (metis prod_cases4)
    from "1.prems" True sc sw have res: "passes = (i, out) # ps"
      by (simp add: outlier_sweep.simps [of q z i])
    have le: "(if jumped then 2 else i) - 1 \<le> i"
      using outlier_scan_jumped [of q z i 0 xs d s xs1 d1 s1 out] sc True
      by (cases jumped) auto
    from "1.IH" [OF True sc [symmetric] refl refl refl sw]
    have "\<forall>pass \<in> set ps. 1 \<le> fst pass \<and> fst pass \<le> (if jumped then 2 else i) - 1
        \<and> (\<forall>p \<in> set (snd pass). q (fst pass) (snd p))" .
    with le have "\<forall>pass \<in> set ps. 1 \<le> fst pass \<and> fst pass \<le> i
        \<and> (\<forall>p \<in> set (snd pass). q (fst pass) (snd p))"
      by (meson le_trans)
    with outlier_scan_dumped_exceed [OF sc] True res show ?thesis by simp
  qed
qed

lemma outlier_scan_within_cap:
  "d + length (filter (q i) xs) \<le> 21 \<Longrightarrow>
     outlier_scan q z i j xs d s = (xs', d', s', out, jumped) \<Longrightarrow>
     \<not> jumped \<and> s' = s \<and> length out = length (filter (q i) xs)"
proof (induction xs arbitrary: j d xs' out)
  case Nil
  then show ?case by simp
next
  case (Cons x xs)
  show ?case
  proof (cases "q i x")
    case False
    with Cons.prems obtain r where
      sc: "outlier_scan q z i (j + 1) xs d s = (r, d', s', out, jumped)"
      by (auto split: prod.splits)
    from Cons.prems(1) False have "d + length (filter (q i) xs) \<le> 21" by simp
    from Cons.IH [OF this sc] False show ?thesis by simp
  next
    case qx: True
    with Cons.prems(1) have room: "\<not> 20 < d" "(d + 1) + length (filter (q i) xs) \<le> 21"
      by simp_all
    with qx Cons.prems(2) obtain r o' where
      sc: "outlier_scan q z i (j + 1) xs (d + 1) s = (r, d', s', o', jumped)"
      and "out = (j, x) # o'"
      by (auto split: prod.splits)
    from Cons.IH [OF room(2) sc] qx this(2) show ?thesis by simp
  qed
qed

lemma outlier_scan_jump_result:
  assumes "i \<noteq> 1" "d \<le> 21" "21 < d + length (filter (q i) xs)"
  shows "\<exists>xs' out. outlier_scan q z i j xs d s = (xs', 21, s, out, True) \<and> length out = 21 - d"
proof -
  from outlier_scan_jumps [where q = q, OF assms] obtain xs' d' s' out where
    sc: "outlier_scan q z i j xs d s = (xs', d', s', out, True)" by blast
  from outlier_scan_counts [OF sc] assms(2) have "d' = d + length out" "d' \<le> 21" by simp_all
  moreover from sc have "20 < d'" by (rule outlier_scan_jumped_cap)
  ultimately have "d' = 21" "length out = 21 - d" by simp_all
  moreover from outlier_scan_early_any [OF assms(1) sc] have "s' = s" by simp
  ultimately show ?thesis using sc by simp
qed

lemma outlier_scan_replicate:
  "q i x \<Longrightarrow> d + n \<le> 21 \<Longrightarrow>
     outlier_scan q z i j (replicate n x @ rest) d s =
     (case outlier_scan q z i (j + n) rest (d + n) s of
        (r, d', s', out, jumped) \<Rightarrow>
          (replicate n z @ r, d', s', map (\<lambda>k. (k, x)) [j..<j + n] @ out, jumped))"
proof (induction n arbitrary: j d)
  case 0
  then show ?case by (simp split: prod.splits)
next
  case (Suc n)
  from Suc.prems have "d + 1 + n \<le> 21" "\<not> 20 < d" by simp_all
  with Suc.IH [OF Suc.prems(1), of "d + 1" "j + 1"] Suc.prems(1) show ?case
    by (simp add: upt_rec [of j] split: prod.splits)
qed

lemma size_exceeds_zero: "\<not> size_exceeds size_mean size_variance k 0"
  by (simp add: size_exceeds_def)

lemma unat_threshold:
  assumes "k \<le> 100" and "unat v * 10000 < 2 ^ 32"
  shows "unat (of_nat k * of_nat k * v :: u32) = k * k * unat v"
proof -
  define n where "n = k * k"
  from assms(1) have n: "n \<le> 10000"
    unfolding n_def using mult_le_mono [of k 100 k 100] by simp
  have eq: "(of_nat k * of_nat k :: u32) = of_nat n" by (simp add: n_def)
  have u: "unat (of_nat n :: u32) = n" using n by (simp add: unat_of_nat)
  have a: "n * unat v \<le> 10000 * unat v" using n by (rule mult_le_mono1)
  have b: "10000 * unat v < 2 ^ 32" using assms(2) by (simp only: mult.commute)
  have "n * unat v < 2 ^ 32" using a b by (rule le_less_trans)
  then have "n * unat v < 2 ^ LENGTH(32)" by simp
  then have "unat (of_nat n :: u32) * unat v < 2 ^ LENGTH(32)" by (simp only: u)
  then have "unat (of_nat n * v :: u32) = unat (of_nat n :: u32) * unat v"
    using unat_mult_lem by blast
  then have "unat (of_nat k * of_nat k * v :: u32) = n * unat v" by (simp only: eq u)
  then show ?thesis by (simp only: n_def)
qed

lemma size_exceeds_mono:
  assumes "unat v * 10000 < 2 ^ 32" "1 \<le> k" "k \<le> 100" "size_exceeds m v k x"
  shows "size_exceeds m v 1 x"
proof -
  from assms(2) have "1 * 1 \<le> k * k" by (intro mult_le_mono) simp_all
  then have "unat v \<le> k * k * unat v" by simp
  then have "v \<le> of_nat k * of_nat k * v"
    by (simp add: word_le_nat_alt unat_threshold [OF assms(3,1)])
  with assms(4) show ?thesis by (auto simp: size_exceeds_def Let_def)
qed

lemma size_exceeds_iff:
  assumes "k \<le> 100" "unat v * 10000 < 2 ^ 32"
  shows "size_exceeds m v k x \<longleftrightarrow> m < x \<and> k * k * unat v < unat ((x - m) * (x - m))"
  by (simp add: size_exceeds_def Let_def word_less_nat_alt [of "of_nat k * of_nat k * v"]
      unat_threshold [OF assms])

lemma fold_sum_replicate:
  "fold (\<lambda>cur acc. acc + g cur) (replicate n x) (a :: u32) = a + of_nat n * g x"
  by (induction n arbitrary: a) (simp_all add: algebra_simps)

section \<open>The cap of the outlier sweeps\<close>

lemma example_sums_25:
  "DumpOutliers_size (replicate 25 100 @ replicate 100 0)
     = Inr (outlier_sweep (size_exceeds 20 1612) 0 100 (replicate 25 100 @ replicate 100 0) 0 0)"
  by (simp add: DumpOutliers_size_def fold_sum_replicate [where g = "\<lambda>c. c"]
      fold_sum_replicate [where g = "\<lambda>c. c * c"] del: fold_replicate)

lemma example_sums_30:
  "DumpOutliers_size (replicate 30 100 @ replicate 120 0)
     = Inr (outlier_sweep (size_exceeds 20 1610) 0 100 (replicate 30 100 @ replicate 120 0) 0 0)"
  by (simp add: DumpOutliers_size_def fold_sum_replicate [where g = "\<lambda>c. c"]
      fold_sum_replicate [where g = "\<lambda>c. c * c"] del: fold_replicate)

lemma example_sums_22:
  "DumpOutliers_size (replicate 22 100 @ replicate 200 0)
     = Inr (outlier_sweep (size_exceeds 9 905) 0 100 (replicate 22 100 @ replicate 200 0) 0 0)"
  by (simp add: DumpOutliers_size_def fold_sum_replicate [where g = "\<lambda>c. c"]
      fold_sum_replicate [where g = "\<lambda>c. c * c"] del: fold_replicate)

text \<open>
  C4, as claimed: at most 20 samples are reported in a sweep, and of 25 samples that
  qualify at \<open>k = 1\<close> exactly 20 are reported. The source dumps a sample whenever
  \<open>dumped_values > 20\<close> is false, so the 21st is dumped as well: of 125 samples, 25 of
  them 100 bytes and the others empty (mean 20, variance 1612, so that the 25 qualify at
  \<open>k = 1\<close> only), 21 are reported and 4 are counted as skipped.
\<close>

theorem DumpOutliers_size_cap_counterexample:
  "reported_count (DumpOutliers_size (replicate 25 100 @ replicate 100 0)) = Some 21
   \<and> skipped_count (DumpOutliers_size (replicate 25 100 @ replicate 100 0)) = Some 4"
proof -
  let ?q = "size_exceeds 20 1612"
  let ?xs = "replicate 25 100 @ replicate 100 (0 :: u32)"
  obtain xs' d s passes where sw: "outlier_sweep ?q 0 100 ?xs 0 0 = (xs', d, s, passes)"
    by (metis prod_cases4)
  have small: "unat (1612 :: u32) * 10000 < 2 ^ 32" by simp
  have m: "length (filter (?q 1) ?xs) = 25" by (simp add: size_exceeds_def)
  have "d = min 21 (0 + length (filter (?q 1) ?xs))
      \<and> s = 0 + (0 + length (filter (?q 1) ?xs) - min 21 (0 + length (filter (?q 1) ?xs)))"
  proof (rule outlier_sweep_counts [OF _ _ _ sw size_exceeds_zero])
    fix k x assume "1 \<le> k" "k \<le> 100" "?q k x"
    with small show "?q 1 x" by (rule size_exceeds_mono)
  qed simp_all
  with m have "d = 21" "s = 4" by simp_all
  moreover from outlier_sweep_dumped [OF sw] have "length (concat (map snd passes)) = d" by simp
  ultimately show ?thesis
    by (simp add: example_sums_25 sw reported_count_def skipped_count_def)
qed

text \<open>
  C4, amended: in each of the two outlier sweeps at most 21 samples are reported in total
  across the whole sweep (a sample is dumped whenever \<open>dumped_values\<close> is not greater
  than 20), and the number reported is \<open>dumped_values\<close>; this holds for the size sweep
  and, whatever the floating-point test computes, for the expansion sweep. With 21 or
  more samples qualifying at \<open>k = 1\<close> when the sweep starts, so in particular with 25 or
  more, exactly 21 samples are reported, and the remainder are counted as skipped: the
  samples counted as skipped and the reported samples that qualify at \<open>k = 1\<close> are
  together as many as the samples that qualify at \<open>k = 1\<close>. The count of the remainder
  rests on one fact, that the value put in the place of a reported sample does not
  qualify at \<open>k = 1\<close>: in the size sweep that value is 0, which never qualifies; the test
  of the expansion sweep is a parameter, and there the fact is a premise.
\<close>

theorem outlier_sweep_cap:
  "(outlier_sweep exceeds zero start samples 0 0 = (samples', d, s, passes)
      \<longrightarrow> length (concat (map snd passes)) = d \<and> d \<le> 21)
   \<and> (DumpOutliers_size sizes = Inr (sizes', ds, ss, passes_s)
      \<longrightarrow> length (concat (map snd passes_s)) = ds \<and> ds \<le> 21)
   \<and> (DumpOutliers_expansion expansion_exceeds zero_expansion expansions
          = (expansions', de, se, passes_e)
      \<longrightarrow> length (concat (map snd passes_e)) = de \<and> de \<le> 21)
   \<and> (1 \<le> start \<and> 21 \<le> length (filter (exceeds 1) samples)
        \<and> outlier_sweep exceeds zero start samples 0 0 = (samples', d, s, passes)
      \<longrightarrow> length (concat (map snd passes)) = 21)
   \<and> (outlier_sweep (size_exceeds size_mean size_variance) 0 100 sizes 0 0
          = (sizes', ds, ss, passes_s)
      \<longrightarrow> ss + length (filter (size_exceeds size_mean size_variance 1)
                        (map snd (concat (map snd passes_s))))
          = length (filter (size_exceeds size_mean size_variance 1) sizes))
   \<and> (\<not> expansion_exceeds 1 zero_expansion
        \<and> DumpOutliers_expansion expansion_exceeds zero_expansion expansions
            = (expansions', de, se, passes_e)
      \<longrightarrow> se + length (filter (expansion_exceeds 1) (map snd (concat (map snd passes_e))))
          = length (filter (expansion_exceeds 1) expansions))"
proof (intro conjI impI)
  assume "outlier_sweep exceeds zero start samples 0 0 = (samples', d, s, passes)"
  from outlier_sweep_dumped [OF this]
  show "length (concat (map snd passes)) = d" "d \<le> 21" by simp_all
next
  assume a: "DumpOutliers_size sizes = Inr (sizes', ds, ss, passes_s)"
  then obtain mean var where
    "outlier_sweep (size_exceeds mean var) 0 100 sizes 0 0 = (sizes', ds, ss, passes_s)"
    by (auto simp: DumpOutliers_size_def Let_def split: if_splits)
  from outlier_sweep_dumped [OF this]
  show "length (concat (map snd passes_s)) = ds" "ds \<le> 21" by simp_all
next
  assume "DumpOutliers_expansion expansion_exceeds zero_expansion expansions
      = (expansions', de, se, passes_e)"
  from outlier_sweep_dumped [OF this [unfolded DumpOutliers_expansion_def]]
  show "length (concat (map snd passes_e)) = de" "de \<le> 21" by simp_all
next
  assume a: "1 \<le> start \<and> 21 \<le> length (filter (exceeds 1) samples)
      \<and> outlier_sweep exceeds zero start samples 0 0 = (samples', d, s, passes)"
  then have sw: "outlier_sweep exceeds zero start samples 0 0 = (samples', d, s, passes)"
    and st: "1 \<le> start" and m: "21 \<le> 0 + length (filter (exceeds 1) samples)" by simp_all
  have "d = 21" by (rule outlier_sweep_exact [OF st _ m sw]) simp
  with outlier_sweep_dumped [OF sw] show "length (concat (map snd passes)) = 21" by simp
next
  assume sw: "outlier_sweep (size_exceeds size_mean size_variance) 0 100 sizes 0 0
      = (sizes', ds, ss, passes_s)"
  have "ss + length (filter (size_exceeds size_mean size_variance 1)
                       (map snd (concat (map snd passes_s))))
      = 0 + length (filter (size_exceeds size_mean size_variance 1) sizes)"
    by (rule outlier_sweep_remainder [OF _ sw size_exceeds_zero]) simp
  then show "ss + length (filter (size_exceeds size_mean size_variance 1)
                            (map snd (concat (map snd passes_s))))
      = length (filter (size_exceeds size_mean size_variance 1) sizes)"
    by simp
next
  assume a: "\<not> expansion_exceeds 1 zero_expansion
      \<and> DumpOutliers_expansion expansion_exceeds zero_expansion expansions
          = (expansions', de, se, passes_e)"
  then have sw: "outlier_sweep expansion_exceeds zero_expansion 10 expansions 0 0
      = (expansions', de, se, passes_e)"
    and nz: "\<not> expansion_exceeds 1 zero_expansion"
    by (simp_all add: DumpOutliers_expansion_def)
  have "se + length (filter (expansion_exceeds 1) (map snd (concat (map snd passes_e))))
      = 0 + length (filter (expansion_exceeds 1) expansions)"
    by (rule outlier_sweep_remainder [OF _ sw nz]) simp
  then show "se + length (filter (expansion_exceeds 1) (map snd (concat (map snd passes_e))))
      = length (filter (expansion_exceeds 1) expansions)"
    by simp
qed

theorem outlier_sweep_cap_witness:
  "reported_count (DumpOutliers_size (replicate 30 100 @ replicate 120 0)) = Some 21
   \<and> skipped_count (DumpOutliers_size (replicate 30 100 @ replicate 120 0)) = Some 9
   \<and> reported_count
       (Inr (DumpOutliers_expansion (size_exceeds 20 1610) 0 (replicate 30 100 @ replicate 120 0)))
     = Some 21
   \<and> skipped_count
       (Inr (DumpOutliers_expansion (size_exceeds 20 1610) 0 (replicate 30 100 @ replicate 120 0)))
     = Some 9"
proof -
  let ?q = "size_exceeds 20 1610"
  let ?xs = "replicate 30 100 @ replicate 120 (0 :: u32)"
  have small: "unat (1610 :: u32) * 10000 < 2 ^ 32" by simp
  have m: "length (filter (?q 1) ?xs) = 30" by (simp add: size_exceeds_def)
  have all: "length (filter (?q 1) (map snd (concat (map snd passes)))) = length (concat (map snd passes))"
    if "outlier_sweep ?q 0 start ?xs 0 0 = (xs', d, s, passes)" "start \<le> 100"
    for start xs' d s passes
  proof -
    have "?q 1 (snd p)" if "p \<in> set (concat (map snd passes))" for p
    proof -
      from that obtain pass where pass: "pass \<in> set passes" "p \<in> set (snd pass)" by auto
      with outlier_sweep_dumped_exceed [OF \<open>outlier_sweep ?q 0 start ?xs 0 0 = (xs', d, s, passes)\<close>]
      have "1 \<le> fst pass" "fst pass \<le> start" "?q (fst pass) (snd p)" by auto
      with \<open>start \<le> 100\<close> show ?thesis by (intro size_exceeds_mono [OF small, of "fst pass"]) simp_all
    qed
    then have "filter (?q 1) (map snd (concat (map snd passes))) = map snd (concat (map snd passes))"
      by (intro filter_True) auto
    then show ?thesis by simp
  qed
  obtain xs' d s passes where sw: "outlier_sweep ?q 0 100 ?xs 0 0 = (xs', d, s, passes)"
    by (metis prod_cases4)
  obtain ys' e t qasses where sw10: "outlier_sweep ?q 0 10 ?xs 0 0 = (ys', e, t, qasses)"
    by (metis prod_cases4)
  have ex: "DumpOutliers_expansion ?q 0 ?xs = (ys', e, t, qasses)"
    by (simp add: DumpOutliers_expansion_def sw10)
  have h: "1 \<le> (100 :: nat) \<and> 21 \<le> length (filter (?q 1) ?xs)
      \<and> outlier_sweep ?q 0 100 ?xs 0 0 = (xs', d, s, passes)"
    using m sw by simp
  have h10: "1 \<le> (10 :: nat) \<and> 21 \<le> length (filter (?q 1) ?xs)
      \<and> outlier_sweep ?q 0 10 ?xs 0 0 = (ys', e, t, qasses)"
    using m sw10 by simp
  have hx: "\<not> ?q 1 0 \<and> DumpOutliers_expansion ?q 0 ?xs = (ys', e, t, qasses)"
    using ex size_exceeds_zero by simp
  note main = outlier_sweep_cap [where exceeds = ?q and zero = 0 and start = 100
      and samples = ?xs and samples' = xs' and d = d and s = s and passes = passes
      and size_mean = 20 and size_variance = 1610 and sizes = ?xs and sizes' = xs'
      and ds = d and ss = s and passes_s = passes]
  note main10 = outlier_sweep_cap [where exceeds = ?q and zero = 0 and start = 10
      and samples = ?xs and samples' = ys' and d = e and s = t and passes = qasses
      and expansion_exceeds = ?q and zero_expansion = 0 and expansions = ?xs
      and expansions' = ys' and de = e and se = t and passes_e = qasses]
  from main [THEN conjunct2, THEN conjunct2, THEN conjunct2, THEN conjunct1, rule_format, OF h]
  have 1: "length (concat (map snd passes)) = 21" .
  from main [THEN conjunct2, THEN conjunct2, THEN conjunct2, THEN conjunct2, THEN conjunct1,
      rule_format, OF sw] m all [OF sw] 1
  have 2: "s = 9" by simp
  from main10 [THEN conjunct2, THEN conjunct2, THEN conjunct2, THEN conjunct1, rule_format, OF h10]
  have 3: "length (concat (map snd qasses)) = 21" .
  from main10 [THEN conjunct2, THEN conjunct2, THEN conjunct2, THEN conjunct2, THEN conjunct2,
      rule_format, OF hx] m all [OF sw10] 3
  have 4: "t = 9" by simp
  from 1 2 3 4 show ?thesis
    by (simp add: example_sums_30 sw ex reported_count_def skipped_count_def)
qed

section \<open>After the cap: the jump to the last threshold\<close>

lemma example_idle_22:
  assumes "3 < k" "k \<le> 100"
  shows "\<forall>x \<in> set (replicate 22 100 @ replicate 200 0). \<not> size_exceeds 9 905 k x"
proof -
  have small: "unat (905 :: u32) * 10000 < 2 ^ 32" by simp
  from assms(1) have "4 * 4 \<le> k * k" by (intro mult_le_mono) simp_all
  then have "\<not> k * k * 905 < 8281" by simp
  then show ?thesis
    by (auto simp: size_exceeds_iff [OF assms(2) small])
qed

text \<open>
  C5, as claimed: after the cap is exceeded at a threshold above 1 the sweep goes on at
  \<open>k = 2\<close>. The source sets \<open>i = 2\<close> and leaves the inner loop, and the decrement of the
  outer loop makes the next threshold 1: of 222 samples, 22 of them 100 bytes and the
  others empty (mean 9, variance 905), the 22 qualify at \<open>k = 3\<close>; the passes run are those
  at 100, 99, ..., 3 and then the one at 1, and none at 2.
\<close>

theorem DumpOutliers_size_thresholds_counterexample:
  "thresholds (DumpOutliers_size (replicate 22 100 @ replicate 200 0)) = rev [3..<101] @ [1]
   \<and> 2 \<notin> set (thresholds (DumpOutliers_size (replicate 22 100 @ replicate 200 0)))"
proof -
  let ?q = "size_exceeds 9 905"
  let ?xs = "replicate 22 100 @ replicate 200 (0 :: u32)"
  have q3: "length (filter (?q 3) ?xs) = 22" by (simp add: size_exceeds_def)
  have "\<exists>xs' d' s' out. outlier_scan ?q 0 3 0 ?xs 0 0 = (xs', d', s', out, True)"
    by (rule outlier_scan_jumps) (use q3 in simp_all)
  then obtain xs1 d1 s1 out where sc: "outlier_scan ?q 0 3 0 ?xs 0 0 = (xs1, d1, s1, out, True)"
    by blast
  have at3: "outlier_sweep ?q 0 3 ?xs 0 0
      = (xs1, d1, s1 + length (filter (?q 1) xs1), [(3, out), (1, [])])"
    by (rule outlier_sweep_after_jump [OF _ sc]) simp
  have idle: "\<forall>k. 3 < k \<and> k \<le> 100 \<longrightarrow> (\<forall>x \<in> set ?xs. \<not> ?q k x)"
    using example_idle_22 by blast
  have "outlier_sweep ?q 0 100 ?xs 0 0 =
      (case outlier_sweep ?q 0 3 ?xs 0 0 of
         (xs', d', s', passes) \<Rightarrow> (xs', d', s', map (\<lambda>k. (k, [])) (rev [3 + 1..<100 + 1]) @ passes))"
    by (rule outlier_sweep_idle [OF _ idle]) simp
  then have "thresholds (DumpOutliers_size ?xs) = rev [4..<101] @ [3, 1]"
    by (simp add: example_sums_22 at3 thresholds_def rev_map [symmetric] comp_def del: upt_Suc)
  moreover have "rev [3..<101] = rev [4..<101] @ [3]"
    by (simp add: upt_rec [of 3] del: upt_Suc)
  ultimately have 1: "thresholds (DumpOutliers_size ?xs) = rev [3..<101] @ [1]" by simp
  have "2 \<notin> set (rev [3..<101] @ [1 :: nat])" by simp
  with 1 show ?thesis by (simp only: simp_thms)
qed

text \<open>
  C5, amended: when the report cap is exceeded while the threshold \<open>i\<close> is still greater
  than 1, that is, when the pass at \<open>i\<close> starts with \<open>d \<le> 21\<close> samples dumped and more
  samples qualify at \<open>i\<close> than the \<open>21 - d\<close> that can still be dumped, the pass dumps
  \<open>21 - d\<close> samples and leaves through \<open>i = 2; break\<close>, and the rest of the sweep is one
  pass at threshold 1: the loop variable is set to 2 and decremented before the next
  pass, so no threshold between \<open>i\<close> and 1, 2 included, is evaluated. (When no more
  samples qualify than can still be dumped, the pass dumps them all, skips none and does
  not leave early.) At threshold 1 with more than 20 samples dumped, every sample that
  qualifies is counted as skipped, nothing is printed and no sample is changed.
\<close>

theorem outlier_sweep_jump_to_last_threshold:
  "(1 < i \<and> d \<le> 21 \<and> 21 < d + length (filter (exceeds i) samples)
      \<longrightarrow> (\<exists>xs out.
             outlier_scan exceeds zero i 0 samples d s = (xs, 21, s, out, True)
             \<and> length out = 21 - d
             \<and> outlier_sweep exceeds zero i samples d s
                 = (xs, 21, s + length (filter (exceeds 1) xs), [(i, out), (1, [])])))
   \<and> (d + length (filter (exceeds i) samples) \<le> 21
        \<and> outlier_scan exceeds zero i j samples d s = (samples', d', s', out', jumped)
      \<longrightarrow> \<not> jumped \<and> s' = s \<and> length out' = length (filter (exceeds i) samples))
   \<and> (20 < d
      \<longrightarrow> outlier_scan exceeds zero 1 j samples d s
            = (samples, d, s + length (filter (exceeds 1) samples), [], False))"
proof (intro conjI impI)
  assume a: "1 < i \<and> d \<le> 21 \<and> 21 < d + length (filter (exceeds i) samples)"
  then have i: "i \<noteq> 1" "0 < i" and d: "d \<le> 21"
    and m: "21 < d + length (filter (exceeds i) samples)" by simp_all
  from outlier_scan_jump_result [where q = exceeds, OF i(1) d m] obtain xs out where
    sc: "outlier_scan exceeds zero i 0 samples d s = (xs, 21, s, out, True)"
    and len: "length out = 21 - d" by blast
  from outlier_sweep_after_jump [OF i(2) sc] sc len
  show "\<exists>xs out.
      outlier_scan exceeds zero i 0 samples d s = (xs, 21, s, out, True)
      \<and> length out = 21 - d
      \<and> outlier_sweep exceeds zero i samples d s
          = (xs, 21, s + length (filter (exceeds 1) xs), [(i, out), (1, [])])"
    by blast
next
  assume a: "d + length (filter (exceeds i) samples) \<le> 21
      \<and> outlier_scan exceeds zero i j samples d s = (samples', d', s', out', jumped)"
  then have "\<not> jumped \<and> s' = s \<and> length out' = length (filter (exceeds i) samples)"
    using outlier_scan_within_cap [of d exceeds i samples zero j s samples' d' s' out' jumped]
    by blast
  then show "\<not> jumped" "s' = s" "length out' = length (filter (exceeds i) samples)"
    by simp_all
next
  assume "20 < d"
  then show "outlier_scan exceeds zero 1 j samples d s
      = (samples, d, s + length (filter (exceeds 1) samples), [], False)"
    by (rule outlier_scan_beyond_cap)
qed

theorem outlier_sweep_jump_to_last_threshold_witness:
  "outlier_scan (size_exceeds 9 905) 0 3 0 (replicate 22 100 @ replicate 200 0) 0 0
     = (replicate 21 0 @ 100 # replicate 200 0, 21, 0, map (\<lambda>k. (k, 100)) [0..<21], True)
   \<and> outlier_sweep (size_exceeds 9 905) 0 3 (replicate 22 100 @ replicate 200 0) 0 0
     = (replicate 21 0 @ 100 # replicate 200 0, 21, 1,
        [(3, map (\<lambda>k. (k, 100)) [0..<21]), (1, [])])
   \<and> outlier_scan (size_exceeds 9 905) 0 3 0 (replicate 21 100 @ replicate 200 0) 0 0
     = (replicate 21 0 @ replicate 200 0, 21, 0, map (\<lambda>k. (k, 100)) [0..<21], False)
   \<and> outlier_scan (size_exceeds 9 905) 0 1 0 (replicate 21 0 @ 100 # replicate 200 0) 21 0
     = (replicate 21 0 @ 100 # replicate 200 0, 21, 1, [], False)"
proof -
  let ?q = "size_exceeds 9 905"
  let ?xs = "replicate 22 100 @ replicate 200 (0 :: u32)"
  let ?ys = "replicate 21 100 @ replicate 200 (0 :: u32)"
  let ?xs' = "replicate 21 0 @ 100 # replicate 200 (0 :: u32)"
  let ?out = "map (\<lambda>k. (k, 100 :: u32)) [0..<21]"
  have q: "?q 3 100" "?q 1 100" "\<not> ?q 1 0" "\<not> ?q 3 0" by (simp_all add: size_exceeds_def)
  have "(22 :: nat) = Suc 21" by simp
  then have "replicate 22 (100 :: u32) = replicate (Suc 21) 100" by (simp only:)
  then have split: "?xs = replicate 21 100 @ 100 # replicate 200 0"
    by (simp only: replicate_Suc replicate_app_Cons_same append_Cons)
  have idle: "outlier_scan ?q 0 3 21 (replicate 200 0) 21 0 = (replicate 200 0, 21, 0, [], False)"
    by (rule outlier_scan_idle) (simp add: q)
  have sc: "outlier_scan ?q 0 3 0 ?xs 0 0 = (?xs', 21, 0, ?out, True)"
    unfolding split
    using outlier_scan_replicate [where q = ?q and i = 3 and x = 100 and z = 0 and d = 0
        and n = 21 and j = 0 and s = 0 and rest = "100 # replicate 200 0", OF q(1)] q
    by simp
  have sc': "outlier_scan ?q 0 3 0 ?ys 0 0 = (replicate 21 0 @ replicate 200 0, 21, 0, ?out, False)"
    using outlier_scan_replicate [where q = ?q and i = 3 and x = 100 and z = 0 and d = 0
        and n = 21 and j = 0 and s = 0 and rest = "replicate 200 0", OF q(1)] idle
    by simp
  have c3: "length (filter (?q 3) ?xs) = 22" by (simp add: size_exceeds_def)
  have c3': "length (filter (?q 3) ?ys) = 21" by (simp add: size_exceeds_def)
  have c1: "length (filter (?q 1) ?xs') = 1" by (simp add: size_exceeds_def)
  have h1: "1 < (3 :: nat) \<and> (0 :: nat) \<le> 21 \<and> 21 < 0 + length (filter (?q 3) ?xs)"
    by (simp only: c3) simp
  have h2: "0 + length (filter (?q 3) ?ys) \<le> 21
      \<and> outlier_scan ?q 0 3 0 ?ys 0 0 = (replicate 21 0 @ replicate 200 0, 21, 0, ?out, False)"
    by (simp only: c3' sc') simp
  from outlier_sweep_jump_to_last_threshold [where exceeds = ?q and zero = 0 and i = 3
      and samples = ?xs and d = 0 and s = 0, THEN conjunct1, rule_format, OF h1]
  obtain xs out where
    "outlier_scan ?q 0 3 0 ?xs 0 0 = (xs, 21, 0, out, True)"
    "outlier_sweep ?q 0 3 ?xs 0 0 = (xs, 21, 0 + length (filter (?q 1) xs), [(3, out), (1, [])])"
    by blast
  with sc c1 have 1: "outlier_sweep ?q 0 3 ?xs 0 0 = (?xs', 21, 1, [(3, ?out), (1, [])])"
    by simp
  from outlier_sweep_jump_to_last_threshold [where exceeds = ?q and zero = 0 and i = 3
      and samples = ?ys and d = 0 and s = 0 and j = 0, THEN conjunct2, THEN conjunct1,
      rule_format, OF h2]
  have 2: "length ?out = length (filter (?q 3) ?ys)" by simp
  from outlier_sweep_jump_to_last_threshold [where exceeds = ?q and zero = 0
      and samples = ?xs' and d = 21 and s = 0 and j = 0, THEN conjunct2, THEN conjunct2,
      rule_format] c1
  have 3: "outlier_scan ?q 0 1 0 ?xs' 21 0 = (?xs', 21, 1, [], False)" by simp
  from sc 1 sc' 3 show ?thesis by (simp only: simp_thms)
qed

section \<open>Fewer than two samples\<close>

text \<open>
  C6. The specification has the mean and the variance computed only for \<open>n \<ge> 2\<close> and the
  outlier report skipped for fewer samples, with no division by \<open>n - 1\<close>. \<open>DumpOutliers\<close>
  has no such test: with no sample it divides by \<open>n = 0\<close>, with one sample by
  \<open>n - 1 = 0\<close>, both in unsigned integer arithmetic. (With two samples the divisions are
  defined and the sweep runs.)
\<close>

theorem DumpOutliers_size_fewer_than_two_samples:
  "DumpOutliers_size [] = Inl DivisionByZero
   \<and> DumpOutliers_size [cur_size] = Inl DivisionByZero
   \<and> DumpOutliers_size [10, 30] = Inr (outlier_sweep (size_exceeds 20 200) 0 100 [10, 30] 0 0)"
  by (simp add: DumpOutliers_size_def)

end
